theory Spec2Isabelle
  imports Complex_Main
begin

unbundle bit_operations_syntax

section \<open>Constant generation for 128-bit division (div128.py)\<close>

text \<open>
  The script works on Python integers, which are unbounded: they are modelled as
  \<^typ>\<open>int\<close>.  Exponents, shift amounts and loop counters that the script only ever
  uses as non-negative values are \<^typ>\<open>nat\<close>.  The shifts \<open>x >> k\<close> and \<open>1 << k\<close>
  are \<^const>\<open>drop_bit\<close> and \<^const>\<open>push_bit\<close>, and \<open>x & m\<close> is \<open>AND\<close>.
\<close>

datatype error = ValueError | ZeroDivisionError | OverflowError | Float_Operand

text \<open>
  The first three are the Python exceptions the script can raise.  \<open>Float_Operand\<close>
  marks the places where a negative exponent would make \<open>radix**k\<close> a float and the
  script would go on computing with it; the model stops there.
\<close>

definition u64_max :: int where
  "u64_max = 2 ^ 64 - 1"

definition u128_max :: int where
  "u128_max = 2 ^ 128 - 1"

subsection \<open>\<open>u128_mulhi\<close>: the high half of a 128 by 128 bit product\<close>

definition lo_mask :: int where
  "lo_mask = push_bit 64 1 - 1"

definition u128_mulhi :: "int \<Rightarrow> int \<Rightarrow> int" where
  "u128_mulhi x y =
    (let x_lo = x AND lo_mask;
         x_hi = drop_bit 64 x;
         y_lo = y AND lo_mask;
         y_hi = drop_bit 64 y;
         carry = drop_bit 64 (x_lo * y_lo);
         m = x_lo * y_hi + carry;
         high1 = drop_bit 64 m;
         m_lo = m AND lo_mask;
         high2 = drop_bit 64 (x_hi * y_lo + m_lo)
     in x_hi * y_hi + high1 + high2)"

text \<open>
  The products and sums that \<open>u128_mulhi\<close> forms on the way, in the order of the
  source: \<open>x_lo * y_lo\<close>, \<open>m\<close>, \<open>x_hi * y_lo + m_lo\<close> and the returned sum.
\<close>

definition mulhi_intermediates :: "int \<Rightarrow> int \<Rightarrow> int list" where
  "mulhi_intermediates x y =
    (let x_lo = x AND lo_mask;
         x_hi = drop_bit 64 x;
         y_lo = y AND lo_mask;
         y_hi = drop_bit 64 y;
         carry = drop_bit 64 (x_lo * y_lo);
         m = x_lo * y_hi + carry;
         high1 = drop_bit 64 m;
         m_lo = m AND lo_mask;
         high2 = drop_bit 64 (x_hi * y_lo + m_lo)
     in [x_lo * y_lo, m, x_hi * y_lo + m_lo, x_hi * y_hi + high1 + high2])"


subsection \<open>Floating point\<close>

text \<open>
  Three expressions of the script are evaluated in binary64 floating point.

  The quotient \<open>u128_max / (x**2)\<close> is Python's true division of two integers, which
  CPython rounds correctly (to nearest, ties to even) whatever the platform.  It is
  modelled exactly: a finite double is a pair \<open>(m, k)\<close> that stands for \<open>m * 2^k\<close>,
  and the comparison of a double with an integer is exact, as in Python.

  The logarithms \<open>math.log\<close> and \<open>math.log2\<close> convert their integer arguments to
  doubles, which is modelled exactly as well, and hand them to the platform's C
  library, whose last bit is not fixed by the source.  The integers the script derives
  from the library's results are therefore parameters of the model, collected in the
  record \<open>libm\<close>; every theorem says what it needs of them.
\<close>

fun bit_length :: "int \<Rightarrow> nat" where
  "bit_length n = (if n \<le> 0 then 0 else Suc (bit_length (n div 2)))"

type_synonym double = "int \<times> int"

definition round_half_even :: "int \<Rightarrow> int \<Rightarrow> int" where
  "round_half_even p q =
    (let f = p div q; r = p mod q
     in if 2 * r < q then f
        else if q < 2 * r then f + 1
        else if even f then f else f + 1)"

text \<open>The binary exponent \<open>e\<close> of a quotient of positive integers: \<open>2^e \<le> a / b < 2^(e+1)\<close>.\<close>

definition quotient_exponent :: "int \<Rightarrow> int \<Rightarrow> int" where
  "quotient_exponent a b =
    (let d = int (bit_length a) - int (bit_length b)
     in if b * 2 ^ nat d \<le> a * 2 ^ nat (- d) then d else d - 1)"

definition int_truediv :: "int \<Rightarrow> int \<Rightarrow> error + double" where
  "int_truediv a b =
    (if b = 0 then Inl ZeroDivisionError
     else if a = 0 then Inr (0, 0)
     else
       let s = (if (a < 0) = (b < 0) then 1 else - 1);
           e = quotient_exponent \<bar>a\<bar> \<bar>b\<bar>
       in if 1023 < e then Inl OverflowError
          else
            let k = max e (- 1022) - 52;
                m = round_half_even (\<bar>a\<bar> * 2 ^ nat (- k)) (\<bar>b\<bar> * 2 ^ nat k)
            in if 2 ^ 1024 \<le> m * 2 ^ nat k then Inl OverflowError
               else Inr (s * m, k))"

definition double_lt_int :: "double \<Rightarrow> int \<Rightarrow> bool" where
  "double_lt_int f x = (case f of (m, k) \<Rightarrow> m * 2 ^ nat k < x * 2 ^ nat (- k))"

text \<open>
  The conversion of an integer to a double, before the C library sees it: the integer
  rounded to 53 significant bits, to nearest with ties to even.  The rounded value of
  an integer is an integer again, and it is kept as such.  (Beyond the range of a
  double, \<open>math.log\<close> and \<open>math.log2\<close> go on with the mantissa and exponent of the
  same rounded value.)
\<close>

definition float_of_int :: "int \<Rightarrow> int" where
  "float_of_int x =
    (let e = int (bit_length \<bar>x\<bar>) - 53
     in if e \<le> 0 then x
        else sgn x * round_half_even \<bar>x\<bar> (2 ^ nat e) * 2 ^ nat e)"

record libm =
  log_floor :: "int \<Rightarrow> int \<Rightarrow> nat"
  log2_ceil :: "int \<Rightarrow> nat"
  log2_trunc :: "int \<Rightarrow> nat"

text \<open>
  The fields stand for the C library at work on doubles of integer value:
  \<open>log_floor lm a b\<close> for the floor of \<open>log(a) / log(b)\<close> with \<open>b \<ge> 2\<close>,
  \<open>log2_ceil lm d\<close> for the ceiling of \<open>log2(d)\<close> and \<open>log2_trunc lm d\<close> for \<open>log2(d)\<close>
  truncated, both with \<open>d \<ge> 1\<close>.  On these arguments the logarithm is not negative, so
  the results are natural numbers.  The three expressions of the script convert their
  integer arguments first.  Where an argument is outside the domain of the logarithm
  the functions below raise before they consult \<open>lm\<close>.
\<close>

definition math_log_floor :: "libm \<Rightarrow> int \<Rightarrow> int \<Rightarrow> nat" where
  "math_log_floor lm a b = log_floor lm (float_of_int a) (float_of_int b)"

definition math_log2_ceil :: "libm \<Rightarrow> int \<Rightarrow> nat" where
  "math_log2_ceil lm d = log2_ceil lm (float_of_int d)"

definition math_log2_trunc :: "libm \<Rightarrow> int \<Rightarrow> nat" where
  "math_log2_trunc lm d = log2_trunc lm (float_of_int d)"

subsection \<open>\<open>is_valid\<close> and \<open>find_power\<close>\<close>

definition is_valid :: "int \<Rightarrow> error + bool" where
  "is_valid x =
    (if x \<le> u64_max
     then (case int_truediv u128_max (x ^ 2) of
             Inl err \<Rightarrow> Inl err
           | Inr f \<Rightarrow> Inr (double_lt_int f x))
     else Inr False)"

partial_function (option) find_power_loop :: "int \<Rightarrow> nat \<Rightarrow> (error + int) option" where
  "find_power_loop radix start_power =
    (case is_valid (radix ^ start_power) of
       Inl err \<Rightarrow> Some (Inl err)
     | Inr v \<Rightarrow>
         if v then find_power_loop radix (start_power + 1)
         else Some (Inr (int start_power - 1)))"

declare find_power_loop.simps [code]

definition find_power :: "libm \<Rightarrow> int \<Rightarrow> (error + int) option" where
  "find_power lm radix =
    (if radix \<le> 0 then Some (Inl ValueError)
     else if radix = 1 then Some (Inl ZeroDivisionError)
     else
       let start_power = int (math_log_floor lm u64_max radix) - 1
       in if start_power < 0 then Some (Inl Float_Operand)
          else find_power_loop radix (nat start_power))"

subsection \<open>\<open>choose_multiplier\<close>\<close>

fun choose_multiplier_loop :: "int \<Rightarrow> int \<Rightarrow> nat \<Rightarrow> int \<times> int \<times> nat" where
  "choose_multiplier_loop m_low m_high sh_post =
    (if m_low div 2 < m_high div 2 \<and> 0 < sh_post
     then choose_multiplier_loop (m_low div 2) (m_high div 2) (sh_post - 1)
     else (m_low, m_high, sh_post))"

definition choose_multiplier :: "libm \<Rightarrow> int \<Rightarrow> nat \<Rightarrow> bool \<Rightarrow> error + int \<times> nat \<times> nat" where
  "choose_multiplier lm divisor bits is_signed =
    (if divisor \<le> 0 then Inl ValueError
     else
       let precision = (if is_signed then int bits - 1 else int bits);
           div_bits = math_log2_ceil lm divisor;
           sh_post = div_bits;
           m_low = 2 ^ (bits + div_bits) div divisor;
           m_high = (2 ^ (bits + div_bits)
                     + 2 ^ nat (int bits + int div_bits - precision)) div divisor
       in case choose_multiplier_loop m_low m_high sh_post of
            (m_low', m_high', sh_post') \<Rightarrow> Inr (m_high', sh_post', div_bits))"

subsection \<open>\<open>fast_shift\<close> and \<open>is_pow2\<close>\<close>

partial_function (option) fast_shift_loop :: "int \<Rightarrow> nat \<Rightarrow> nat option" where
  "fast_shift_loop divisor n =
    (if divisor mod 2 ^ (n + 1) = 0 then fast_shift_loop divisor (n + 1) else Some n)"

declare fast_shift_loop.simps [code]

definition fast_shift :: "int \<Rightarrow> nat option" where
  "fast_shift divisor = fast_shift_loop divisor 0"

definition is_pow2 :: "libm \<Rightarrow> int \<Rightarrow> error + bool" where
  "is_pow2 lm radix =
    (if radix \<le> 0 then Inl ValueError else Inr (radix = 2 ^ math_log2_trunc lm radix))"

subsection \<open>The emitted constants\<close>

text \<open>
  The \<open>print_*\<close> functions write Rust source text.  The model keeps the numbers
  they interpolate into it, one constructor for each kernel the text calls, with the
  arguments in the order of the call; the last argument is the body of \<open>u64_step\<close>.
\<close>

datatype emitted =
    Pow2_Divrem int int nat int
  | Fast_Divrem int int int nat int nat int
  | Moderate_Divrem int int int nat int
  | Slow_Divrem int int int int

function bin_digits :: "int \<Rightarrow> string" where
  "bin_digits n =
    (if n < 2 then [if n = 1 then CHR ''1'' else CHR ''0'']
     else bin_digits (n div 2) @ [if odd n then CHR ''1'' else CHR ''0''])"
  by pat_completeness auto
termination
  by (relation "measure nat") auto

definition bin :: "int \<Rightarrow> string" where
  "bin x = (if x < 0 then ''-0b'' @ bin_digits (- x) else ''0b'' @ bin_digits x)"

definition print_pow2 :: "libm \<Rightarrow> int \<Rightarrow> error + emitted" where
  "print_pow2 lm radix =
    (if radix \<le> 0 then Inl ValueError
     else
       let log2 = math_log2_trunc lm radix
       in if log2 = 0 then Inl ZeroDivisionError
          else
            let digits = 64 div log2;
                shr = digits * log2;
                msk = push_bit shr 1 - 1
            in Inr (Pow2_Divrem radix msk shr (int digits)))"

definition print_fast :: "int \<Rightarrow> int \<Rightarrow> nat \<Rightarrow> int \<Rightarrow> nat \<Rightarrow> int \<Rightarrow> emitted" where
  "print_fast radix divisor fast_shr factor factor_shr digits =
    (let fast = push_bit (64 + fast_shr) 1
     in Fast_Divrem radix divisor fast fast_shr factor factor_shr digits)"

definition print_moderate :: "int \<Rightarrow> int \<Rightarrow> int \<Rightarrow> nat \<Rightarrow> int \<Rightarrow> emitted" where
  "print_moderate radix divisor factor factor_shr digits =
    Moderate_Divrem radix divisor factor factor_shr digits"

definition print_slow :: "int \<Rightarrow> int \<Rightarrow> int \<Rightarrow> emitted" where
  "print_slow radix divisor digits =
    (let ctlz = 66 - int (length (bin divisor))
     in Slow_Divrem radix divisor ctlz digits)"

text \<open>The body of the loop of \<open>divisor_constants\<close>, for one radix.\<close>

definition radix_constants :: "libm \<Rightarrow> int \<Rightarrow> (error + emitted) option" where
  "radix_constants lm radix =
    (case is_pow2 lm radix of
       Inl err \<Rightarrow> Some (Inl err)
     | Inr True \<Rightarrow> Some (print_pow2 lm radix)
     | Inr False \<Rightarrow>
        (case find_power lm radix of
           None \<Rightarrow> None
         | Some (Inl err) \<Rightarrow> Some (Inl err)
         | Some (Inr digits) \<Rightarrow>
             if digits < 0 then Some (Inl Float_Operand)
             else
               let divisor = radix ^ nat digits
               in (case fast_shift divisor of
                     None \<Rightarrow> None
                   | Some fast_shr \<Rightarrow>
                      (case choose_multiplier lm divisor 128 False of
                         Inl err \<Rightarrow> Some (Inl err)
                       | Inr (factor, factor_shr, _) \<Rightarrow>
                           Some (Inr
                             (if 2 ^ 128 \<le> factor
                              then print_slow radix divisor digits
                              else if fast_shr \<noteq> 0
                              then print_fast radix divisor fast_shr factor factor_shr digits
                              else print_moderate radix divisor factor factor_shr digits))))))"

text \<open>
  \<open>divisor_constants\<close> runs the body for the radices 2 to 36 in order.  An exception
  ends the run, and a body that does not return (\<open>None\<close>) keeps the run from returning.
\<close>

fun emit_all :: "libm \<Rightarrow> int list \<Rightarrow> (error + emitted list) option" where
  "emit_all lm [] = Some (Inr [])"
| "emit_all lm (radix # rest) =
    (case radix_constants lm radix of
       None \<Rightarrow> None
     | Some (Inl err) \<Rightarrow> Some (Inl err)
     | Some (Inr out) \<Rightarrow>
        (case emit_all lm rest of
           None \<Rightarrow> None
         | Some (Inl err) \<Rightarrow> Some (Inl err)
         | Some (Inr outs) \<Rightarrow> Some (Inr (out # outs))))"

definition divisor_constants :: "libm \<Rightarrow> (error + emitted list) option" where
  "divisor_constants lm = emit_all lm [2..36]"

subsection \<open>Tiers\<close>

text \<open>The tier of an emitted record is the kernel it calls.\<close>

datatype tier = PowerOfTwo | Fast | Moderate | Slow

fun tier_of :: "emitted \<Rightarrow> tier" where
  "tier_of (Pow2_Divrem radix msk shr digits) = PowerOfTwo"
| "tier_of (Fast_Divrem radix divisor fast fast_shr factor factor_shr digits) = Fast"
| "tier_of (Moderate_Divrem radix divisor factor factor_shr digits) = Moderate"
| "tier_of (Slow_Divrem radix divisor ctlz digits) = Slow"

fun multiplier_of :: "emitted \<Rightarrow> int option" where
  "multiplier_of (Pow2_Divrem radix msk shr digits) = None"
| "multiplier_of (Fast_Divrem radix divisor fast fast_shr factor factor_shr digits) = Some factor"
| "multiplier_of (Moderate_Divrem radix divisor factor factor_shr digits) = Some factor"
| "multiplier_of (Slow_Divrem radix divisor ctlz digits) = None"

subsection \<open>\<open>udiv128\<close>\<close>

definition udiv128 :: "libm \<Rightarrow> int \<Rightarrow> int \<Rightarrow> (error + int \<times> int) option" where
  "udiv128 lm n divisor =
    (case choose_multiplier lm divisor 128 False of
       Inl err \<Rightarrow> Some (Inl err)
     | Inr (factor, factor_shr, _) \<Rightarrow>
        (case fast_shift divisor of
           None \<Rightarrow> None
         | Some shr \<Rightarrow>
             if n < push_bit (64 + shr) 1
             then
               if drop_bit shr divisor = 0 then Some (Inl ZeroDivisionError)
               else
                 let quotient = drop_bit shr n div drop_bit shr divisor;
                     remainder = n - quotient * divisor
                 in Some (Inr (quotient, remainder))
             else
               let quotient = drop_bit factor_shr (u128_mulhi n factor);
                   remainder = n - quotient * divisor
               in Some (Inr (quotient, remainder))))"

definition default_divisor :: int where
  "default_divisor = 10 ^ 19"

subsection \<open>A reference \<open>libm\<close>\<close>

text \<open>
  A C library whose logarithms are exact on the doubles it is given.  It shows that the
  conditions the theorems put on \<open>libm\<close> can be met, and it is the \<open>libm\<close> of the
  concrete examples.
\<close>

function floor_log :: "int \<Rightarrow> int \<Rightarrow> nat" where
  "floor_log b a = (if b < 2 \<or> a < b then 0 else Suc (floor_log b (a div b)))"
  by pat_completeness auto
termination
proof (relation "measure (\<lambda>(b, a). nat a)")
  show "wf (measure (\<lambda>(b, a). nat a))" by simp
next
  fix b a :: int
  assume "\<not> (b < 2 \<or> a < b)"
  then have "2 \<le> b" "b \<le> a" by simp_all
  then have "a div b < a" by (simp add: int_div_less_self)
  with \<open>2 \<le> b\<close> \<open>b \<le> a\<close> show "((b, a div b), (b, a)) \<in> measure (\<lambda>(b, a). nat a)"
    by simp
qed

definition exact_libm :: libm where
  "exact_libm =
    \<lparr> log_floor = (\<lambda>a b. floor_log b a),
      log2_ceil = (\<lambda>d. bit_length (d - 1)),
      log2_trunc = (\<lambda>d. bit_length d - 1) \<rparr>"

subsection \<open>The multiplier chooser of the specification\<close>

text \<open>
  Section 4.3 of the specification, in its own words: the bit length is the exact
  ceiling of the binary logarithm, the two bounds are floors of real quotients, and the
  loop halves both while the halves still differ and the shift is positive.
\<close>

fun spec_halve :: "int \<Rightarrow> int \<Rightarrow> nat \<Rightarrow> int \<times> int \<times> nat" where
  "spec_halve m_low m_high 0 = (m_low, m_high, 0)"
| "spec_halve m_low m_high (Suc post_shift) =
    (if \<lfloor>real_of_int m_low / 2\<rfloor> < \<lfloor>real_of_int m_high / 2\<rfloor>
     then spec_halve \<lfloor>real_of_int m_low / 2\<rfloor> \<lfloor>real_of_int m_high / 2\<rfloor> post_shift
     else (m_low, m_high, Suc post_shift))"

definition spec_choose_multiplier :: "int \<Rightarrow> nat \<Rightarrow> bool \<Rightarrow> int \<times> nat \<times> nat" where
  "spec_choose_multiplier divisor bits is_signed =
    (let precision = int bits - (if is_signed then 1 else 0);
         divisor_bit_length = nat \<lceil>log 2 (real_of_int divisor)\<rceil>;
         post_shift = divisor_bit_length;
         m_low = \<lfloor>2 ^ (bits + divisor_bit_length) / real_of_int divisor\<rfloor>;
         m_high = \<lfloor>(2 ^ (bits + divisor_bit_length)
                     + 2 ^ nat (int bits + int divisor_bit_length - precision))
                    / real_of_int divisor\<rfloor>
     in case spec_halve m_low m_high post_shift of
          (m_low', m_high', post_shift') \<Rightarrow> (m_high', post_shift', divisor_bit_length))"

subsection \<open>What the theorems ask of \<open>libm\<close>\<close>

text \<open>
  \<open>log_floor_ok\<close>: the floor of the floating-point \<open>log(u64_max, radix)\<close> is within
  one of the exact floor \<open>E\<close>, the exponent with \<open>radix^E \<le> u64_max < radix^(E+1)\<close>.
  \<open>log2_ceil_ok\<close>: the ceiling of the floating-point \<open>log2(d)\<close> is not below the
  exact one.  \<open>log2_trunc_ok\<close>: the truncated floating-point \<open>log2(d)\<close> is the exact
  floor.
\<close>

definition log_floor_ok :: "libm \<Rightarrow> int \<Rightarrow> bool" where
  "log_floor_ok lm radix =
    (radix ^ (math_log_floor lm u64_max radix - 1) \<le> u64_max
     \<and> u64_max < radix ^ (math_log_floor lm u64_max radix + 2))"

definition log2_ceil_ok :: "libm \<Rightarrow> int \<Rightarrow> bool" where
  "log2_ceil_ok lm d = (d \<le> 2 ^ math_log2_ceil lm d)"

definition log2_trunc_ok :: "libm \<Rightarrow> int \<Rightarrow> bool" where
  "log2_trunc_ok lm d = (2 ^ math_log2_trunc lm d \<le> d \<and> d < 2 ^ (math_log2_trunc lm d + 1))"

subsection \<open>Accuracy of the C library\<close>

text \<open>
  The double \<open>y\<close> that \<open>math.log(a, b)\<close> or \<open>math.log2(d)\<close> returns is within \<open>eps\<close> of the
  logarithm of the doubles the library is given, and the integer the script uses is
  its floor or its ceiling.
\<close>

definition math_log_within :: "libm \<Rightarrow> real \<Rightarrow> int \<Rightarrow> int \<Rightarrow> bool" where
  "math_log_within lm eps a b =
    (\<exists>y. \<bar>y - log (real_of_int (float_of_int b)) (real_of_int (float_of_int a))\<bar> < eps
       \<and> math_log_floor lm a b = nat \<lfloor>y\<rfloor>)"

definition math_log2_within :: "libm \<Rightarrow> real \<Rightarrow> int \<Rightarrow> bool" where
  "math_log2_within lm eps d =
    (\<exists>y. \<bar>y - log 2 (real_of_int (float_of_int d))\<bar> < eps
       \<and> math_log2_ceil lm d = nat \<lceil>y\<rceil>)"

subsection \<open>Thresholds\<close>

text \<open>The integer cube root of \<open>u128_max\<close>.\<close>

definition cube_root_u128 :: int where
  "cube_root_u128 = 6981463658331"

text \<open>
  The divisor of a radix, converted to a double, keeps a distance from the powers of
  two: it lies between \<open>41/40\<close> of the power below and \<open>39/40\<close> of the power above.
\<close>

definition generator_margin :: "int \<Rightarrow> bool" where
  "generator_margin radix =
    (let d = radix ^ floor_log radix u64_max;
         l = bit_length (d - 1);
         f = float_of_int d
     in 0 < l \<and> 41 * 2 ^ (l - 1) \<le> 40 * f \<and> 40 * f \<le> 39 * 2 ^ l)"

definition other_radices :: "int list" where
  "other_radices = [3, 5, 6, 7, 9, 10, 11, 12, 13, 14, 15, 17, 18, 19, 20, 21, 22, 23, 24,
    25, 26, 27, 28, 29, 30, 31, 33, 34, 35, 36]"

section \<open>Properties\<close>

subsection \<open>Limbs\<close>

lemma lo_mask_eq: "lo_mask = mask 64"
  by (simp add: lo_mask_def mask_eq_exp_minus_1)

lemma and_lo_mask: "x AND lo_mask = x mod 2 ^ 64"
  by (simp add: lo_mask_eq take_bit_eq_mod flip: take_bit_eq_mask)

lemma limb_split: "(x::int) = drop_bit 64 x * 2 ^ 64 + (x AND lo_mask)"
  by (simp add: and_lo_mask drop_bit_eq_div)

lemma limb_lo_bounds: "0 \<le> x AND lo_mask" "x AND lo_mask < 2 ^ 64"
  by (simp_all add: and_lo_mask)

lemma limb_hi_bounds:
  assumes "0 \<le> (x::int)" "x < 2 ^ 128"
  shows "0 \<le> drop_bit 64 x" "drop_bit 64 x < 2 ^ 64"
proof -
  show "0 \<le> drop_bit 64 x"
    using assms(1) by (simp add: drop_bit_eq_div pos_imp_zdiv_nonneg_iff)
  have "x < 2 ^ 64 * 2 ^ 64" using assms(2) by simp
  then have "x div 2 ^ 64 < 2 ^ 64"
    by (simp add: div_less_iff_less_mult)
  then show "drop_bit 64 x < 2 ^ 64" by (simp add: drop_bit_eq_div)
qed

text \<open>
  The identity holds for all Python integers, not only for 128-bit ones: the high limbs
  are not truncated, so the schoolbook sum is exact.
\<close>

lemma u128_mulhi_exact: "u128_mulhi x y = (x * y) div 2 ^ 128"
proof -
  define xl xh yl yh where "xl = x AND lo_mask" and "xh = drop_bit 64 x"
    and "yl = y AND lo_mask" and "yh = drop_bit 64 y"
  define c m where "c = (xl * yl) div 2 ^ 64" and "m = xl * yh + c"
  define B :: int where "B = 2 ^ 64"
  have B: "0 < B" "B * B = 2 ^ 128" by (simp_all add: B_def)
  have x: "x = xh * B + xl" and y: "y = yh * B + yl"
    unfolding xl_def xh_def yl_def yh_def B_def by (rule limb_split)+
  have r: "0 \<le> (xl * yl) mod B" "(xl * yl) mod B < B"
    using B(1) by simp_all
  have lolo: "xl * yl = c * B + (xl * yl) mod B"
    by (simp add: c_def B_def)
  have "x * y = (xh * yh) * (B * B) + (xh * yl + xl * yh) * B + xl * yl"
    by (simp add: x y algebra_simps)
  also have "\<dots> = (xh * yh) * (B * B) + (xh * yl + m) * B + (xl * yl) mod B"
    using lolo by (simp add: m_def algebra_simps)
  finally have "x * y = ((xh * yh) * B + (xh * yl + m)) * B + (xl * yl) mod B"
    by (simp add: algebra_simps)
  then have "(x * y) div B = (xh * yh) * B + (xh * yl + m)"
    using r B(1) by (simp add: div_pos_pos_trivial)
  then have "(x * y) div B div B = ((xh * yh) * B + (xh * yl + m)) div B"
    by simp
  also have "\<dots> = xh * yh + (xh * yl + m) div B"
    using B(1) by simp
  also have "(xh * yl + m) div B = ((xh * yl + m mod B) + (m div B) * B) div B"
    by (simp only: add.assoc mod_mult_div_eq mod_div_mult_eq)
  also have "\<dots> = m div B + (xh * yl + m mod B) div B"
  proof -
    have "B \<noteq> 0" using B(1) by simp
    then show ?thesis by (rule div_mult_self1)
  qed
  finally have "(x * y) div B div B = xh * yh + m div B + (xh * yl + m mod B) div B"
    by simp
  moreover have "(x * y) div B div B = (x * y) div 2 ^ 128"
  proof -
    have "(x * y) div (B * B) = (x * y) div B div B"
      using B(1) by (intro zdiv_zmult2_eq) simp
    then show ?thesis by (simp only: B(2))
  qed
  moreover have "u128_mulhi x y = xh * yh + m div B + (xh * yl + m mod B) div B"
    by (simp add: u128_mulhi_def Let_def xl_def xh_def yl_def yh_def c_def m_def B_def
        and_lo_mask drop_bit_eq_div)
  ultimately show ?thesis by simp
qed

lemma limb_product_bounds:
  fixes a b :: int
  assumes "0 \<le> a" "a < 2 ^ 64" "0 \<le> b" "b < 2 ^ 64"
  shows "0 \<le> a * b" "a * b \<le> 2 ^ 128 - 2 ^ 65 + 1"
proof -
  show "0 \<le> a * b" using assms by simp
  have "a * b \<le> (2 ^ 64 - 1) * (2 ^ 64 - 1)"
    using assms by (intro mult_mono) simp_all
  then show "a * b \<le> 2 ^ 128 - 2 ^ 65 + 1" by simp
qed

lemma mulhi_intermediates_bounds:
  assumes x: "0 \<le> x" "x < 2 ^ 128" and y: "0 \<le> y" "y < 2 ^ 128"
  shows "list_all (\<lambda>v. 0 \<le> v \<and> v < 2 ^ 128) (mulhi_intermediates x y)"
proof -
  define xl xh yl yh where "xl = x AND lo_mask" and "xh = drop_bit 64 x"
    and "yl = y AND lo_mask" and "yh = drop_bit 64 y"
  define c m where "c = drop_bit 64 (xl * yl)" and "m = xl * yh + c"
  define ml where "ml = m AND lo_mask"
  note xlb = limb_lo_bounds [of x, folded xl_def] and ylb = limb_lo_bounds [of y, folded yl_def]
    and xhb = limb_hi_bounds [OF x, folded xh_def] and yhb = limb_hi_bounds [OF y, folded yh_def]
    and mlb = limb_lo_bounds [of m, folded ml_def]
  note ll = limb_product_bounds [OF xlb ylb]
  note lh = limb_product_bounds [OF xlb yhb]
  note hl = limb_product_bounds [OF xhb ylb]
  have c: "0 \<le> c" "c < 2 ^ 64"
  proof -
    show "0 \<le> c" using ll(1) by (simp add: c_def drop_bit_eq_div pos_imp_zdiv_nonneg_iff)
    have "xl * yl < 2 ^ 64 * 2 ^ 64" using ll(2) by simp
    then have "(xl * yl) div 2 ^ 64 < 2 ^ 64" by (simp add: div_less_iff_less_mult)
    then show "c < 2 ^ 64" by (simp add: c_def drop_bit_eq_div)
  qed
  have 1: "0 \<le> xl * yl \<and> xl * yl < 2 ^ 128" using ll by simp
  have 2: "0 \<le> m \<and> m < 2 ^ 128" using lh c by (simp add: m_def)
  have 3: "0 \<le> xh * yl + ml \<and> xh * yl + ml < 2 ^ 128" using hl mlb by simp
  have "0 \<le> x * y" using x y by simp
  moreover have "x * y < 2 ^ 128 * 2 ^ 128"
    using x y by (intro mult_strict_mono) simp_all
  ultimately have "0 \<le> (x * y) div 2 ^ 128 \<and> (x * y) div 2 ^ 128 < 2 ^ 128"
    by (simp add: div_less_iff_less_mult pos_imp_zdiv_nonneg_iff)
  then have 4: "0 \<le> u128_mulhi x y \<and> u128_mulhi x y < 2 ^ 128"
    by (simp only: u128_mulhi_exact)
  have "mulhi_intermediates x y = [xl * yl, m, xh * yl + ml, u128_mulhi x y]"
    by (simp add: mulhi_intermediates_def u128_mulhi_def Let_def xl_def xh_def yl_def yh_def
        c_def m_def ml_def)
  with 1 2 3 4 show ?thesis by simp
qed

text \<open>
  C2.  For 128-bit operands \<open>u128_mulhi\<close> returns the high 128 bits of the 256-bit
  product, \<open>floor (x * y / 2^128)\<close>, and every product and sum it forms on the way
  stays within \<open>2^129 - 1\<close> (each is in fact below \<open>2^128\<close>).
\<close>

theorem u128_mulhi_high_bits:
  assumes "0 \<le> x" "x \<le> u128_max" "0 \<le> y" "y \<le> u128_max"
  shows "u128_mulhi x y = (x * y) div 2 ^ 128
    \<and> list_all (\<lambda>v. 0 \<le> v \<and> v \<le> 2 ^ 129 - 1) (mulhi_intermediates x y)
    \<and> list_all (\<lambda>v. v < 2 ^ 128) (mulhi_intermediates x y)"
proof -
  have x: "0 \<le> x" "x < 2 ^ 128" and y: "0 \<le> y" "y < 2 ^ 128"
    using assms by (simp_all add: u128_max_def)
  have "list_all (\<lambda>v. 0 \<le> v \<and> v < 2 ^ 128) (mulhi_intermediates x y)"
    using x y by (rule mulhi_intermediates_bounds)
  then have "list_all (\<lambda>v. 0 \<le> v \<and> v \<le> 2 ^ 129 - 1) (mulhi_intermediates x y)"
    and "list_all (\<lambda>v. v < 2 ^ 128) (mulhi_intermediates x y)"
    by (auto simp: list_all_iff)
  then show ?thesis by (simp add: u128_mulhi_exact)
qed

theorem u128_mulhi_high_bits_witness:
  "0 \<le> u128_max \<and> u128_mulhi u128_max u128_max = (u128_max * u128_max) div 2 ^ 128
    \<and> u128_mulhi u128_max u128_max = 2 ^ 128 - 2
    \<and> list_all (\<lambda>v. 0 \<le> v \<and> v \<le> 2 ^ 129 - 1) (mulhi_intermediates u128_max u128_max)"
  using u128_mulhi_high_bits [of u128_max u128_max] by (simp add: u128_max_def)

subsection \<open>Bit lengths\<close>

declare bit_length.simps [simp del]

lemma bit_length_nonpos: "n \<le> 0 \<Longrightarrow> bit_length n = 0"
  by (simp add: bit_length.simps)

lemma bit_length_pos: "0 < n \<Longrightarrow> bit_length n = Suc (bit_length (n div 2))"
  by (subst bit_length.simps) simp

lemma bit_length_bounds:
  "0 < n \<Longrightarrow> 2 ^ (bit_length n - 1) \<le> n \<and> n < 2 ^ bit_length n"
proof (induction n rule: bit_length.induct)
  case (1 n)
  show ?case
  proof (cases "n div 2 = 0")
    case True
    with \<open>0 < n\<close> have "n = 1" by presburger
    then show ?thesis by (simp add: bit_length_pos bit_length_nonpos)
  next
    case False
    with \<open>0 < n\<close> have h: "0 < n div 2" by presburger
    with "1.IH" \<open>0 < n\<close>
    have ih: "2 ^ (bit_length (n div 2) - 1) \<le> n div 2" "n div 2 < 2 ^ bit_length (n div 2)"
      by simp_all
    obtain t where t: "bit_length (n div 2) = Suc t"
      using h by (auto simp: bit_length_pos)
    have "2 * 2 ^ t \<le> 2 * (n div 2)" using ih(1) t by simp
    also have "\<dots> \<le> n" by presburger
    finally have lo: "2 ^ Suc t \<le> n" by simp
    have "n div 2 + 1 \<le> 2 ^ Suc t" using ih(2) t by simp
    then have "2 * (n div 2) + 2 \<le> 2 * 2 ^ Suc t" by simp
    moreover have "n < 2 * (n div 2) + 2" by presburger
    ultimately have hi: "n < 2 ^ Suc (Suc t)" by simp
    show ?thesis using lo hi \<open>0 < n\<close> t by (simp add: bit_length_pos)
  qed
qed

lemma bit_length_less: "n < 2 ^ bit_length n"
proof (cases "0 < n")
  case True
  then show ?thesis using bit_length_bounds by blast
next
  case False
  then have "n \<le> 0" by simp
  also have "(0::int) < 2 ^ bit_length n" by simp
  finally show ?thesis .
qed

lemma bit_length_eqI:
  assumes "2 ^ k \<le> n" "n < 2 ^ Suc k"
  shows "bit_length n = Suc k"
proof -
  have pos: "0 < n" using assms(1) by (smt (verit) zero_less_power)
  from bit_length_bounds [OF pos]
  have b: "2 ^ (bit_length n - 1) \<le> n" "n < 2 ^ bit_length n" by simp_all
  have "(2::int) ^ k < 2 ^ bit_length n" using assms(1) b(2) by linarith
  then have 1: "k < bit_length n" by (rule power_less_imp_less_exp [rotated]) simp
  have "(2::int) ^ (bit_length n - 1) < 2 ^ Suc k" using assms(2) b(1) by linarith
  then have 2: "bit_length n - 1 < Suc k" by (rule power_less_imp_less_exp [rotated]) simp
  from 1 2 show ?thesis by linarith
qed

lemma bit_length_mono:
  assumes "a \<le> b"
  shows "bit_length a \<le> bit_length b"
proof (cases "0 < a")
  case True
  from bit_length_bounds [OF True] have "2 ^ (bit_length a - 1) \<le> a" by simp
  also note assms
  also have "b < 2 ^ bit_length b" by (rule bit_length_less)
  finally have "(2::int) ^ (bit_length a - 1) < 2 ^ bit_length b" .
  then have "bit_length a - 1 < bit_length b" by (rule power_less_imp_less_exp [rotated]) simp
  then show ?thesis by linarith
next
  case False
  then show ?thesis by (simp add: bit_length_nonpos)
qed

subsection \<open>Correctly rounded division\<close>

lemma round_half_even_ge: "0 < q \<Longrightarrow> p div q \<le> round_half_even p q"
  by (simp add: round_half_even_def Let_def)

lemma round_half_even_le: "0 < q \<Longrightarrow> round_half_even p q \<le> p div q + 1"
  by (simp add: round_half_even_def Let_def)

lemma round_half_even_below:
  assumes q: "0 < q" and h: "2 * p < (2 * N - 1) * q"
  shows "round_half_even p q \<le> N - 1"
proof -
  define f r where "f = p div q" and "r = p mod q"
  have p: "p = f * q + r" and r: "0 \<le> r" "r < q"
    using q by (simp_all add: f_def r_def)
  have "2 * f * q + 2 * r < 2 * N * q - q"
    using h by (simp add: p algebra_simps)
  then have lt: "(2 * f - 2 * N + 1) * q < - 2 * r" by (simp add: algebra_simps)
  have fle: "f \<le> N - 1"
  proof (rule ccontr)
    assume "\<not> f \<le> N - 1"
    then have "1 \<le> 2 * f - 2 * N + 1" by simp
    then have "1 * q \<le> (2 * f - 2 * N + 1) * q" using q by (intro mult_right_mono) simp_all
    with lt r show False by simp
  qed
  show ?thesis
  proof (cases "f = N - 1")
    case True
    with lt have "- q < - 2 * r" by (simp add: algebra_simps)
    then have "2 * r < q" by simp
    then show ?thesis using True by (simp add: round_half_even_def Let_def f_def r_def)
  next
    case False
    with fle have "f + 1 \<le> N - 1" by simp
    with round_half_even_le [OF q, of p] show ?thesis by (simp add: f_def)
  qed
qed

lemma round_half_even_one: "round_half_even p 1 = p"
  by (simp add: round_half_even_def)

lemma float_of_int_small:
  assumes "\<bar>x\<bar> < 2 ^ 53"
  shows "float_of_int x = x"
proof -
  have "bit_length \<bar>x\<bar> \<le> 53"
  proof (rule ccontr)
    assume "\<not> bit_length \<bar>x\<bar> \<le> 53"
    then have "54 \<le> bit_length \<bar>x\<bar>" by simp
    then have "53 \<le> bit_length \<bar>x\<bar> - 1" and pos: "0 < \<bar>x\<bar>"
      by (auto simp: bit_length_nonpos intro: ccontr)
    then have "(2::int) ^ 53 \<le> 2 ^ (bit_length \<bar>x\<bar> - 1)"
      by (intro power_increasing) simp_all
    also have "\<dots> \<le> \<bar>x\<bar>" using bit_length_bounds [OF pos] by simp
    finally show False using assms by simp
  qed
  then show ?thesis by (simp add: float_of_int_def)
qed

lemma float_of_int_u64_max: "float_of_int u64_max = 2 ^ 64"
  by code_simp

text \<open>
  Above \<open>2^53\<close> the conversion loses the low bits: \<open>2^53 + 1\<close> becomes \<open>2^53\<close>.
\<close>

lemma float_of_int_rounds: "float_of_int (2 ^ 53 + 1) = 2 ^ 53"
  by code_simp

lemma quotient_exponent_nonneg:
  assumes "0 < b" "b \<le> a"
  shows "0 \<le> quotient_exponent a b"
proof -
  have "bit_length b \<le> bit_length a" using assms(2) by (rule bit_length_mono)
  then show ?thesis using assms(2)
    by (cases "bit_length a = bit_length b") (auto simp: quotient_exponent_def Let_def)
qed

lemma quotient_exponent_le:
  assumes a: "0 < a" and b: "0 < b" and e: "0 \<le> quotient_exponent a b"
  shows "b * 2 ^ nat (quotient_exponent a b) \<le> a"
proof -
  define d where "d = int (bit_length a) - int (bit_length b)"
  show ?thesis
  proof (cases "b * 2 ^ nat d \<le> a * 2 ^ nat (- d)")
    case True
    then have qe: "quotient_exponent a b = d" by (simp add: quotient_exponent_def d_def)
    with e have "nat (- d) = 0" by simp
    with True qe show ?thesis by simp
  next
    case False
    then have qe: "quotient_exponent a b = d - 1" by (simp add: quotient_exponent_def d_def)
    with e have d1: "1 \<le> d" by simp
    have la: "bit_length a = bit_length b + nat (d - 1) + 1" using d1 by (simp add: d_def)
    have "b * 2 ^ nat (d - 1) \<le> 2 ^ bit_length b * 2 ^ nat (d - 1)"
      using bit_length_less [of b] by (intro mult_right_mono) simp_all
    also have "\<dots> = 2 ^ (bit_length a - 1)" by (simp add: la power_add)
    also have "\<dots> \<le> a" using bit_length_bounds [OF a] by simp
    finally show ?thesis by (simp add: qe)
  qed
qed

lemma int_truediv_pos:
  assumes "0 < a" "0 < b"
    and "- 1022 \<le> quotient_exponent a b" "quotient_exponent a b \<le> 1023"
    and "k = quotient_exponent a b - 52"
    and "m = round_half_even (a * 2 ^ nat (- k)) (b * 2 ^ nat k)"
    and "m * 2 ^ nat k < 2 ^ 1024"
  shows "int_truediv a b = Inr (m, k)"
proof -
  have "max (quotient_exponent a b) (- 1022) - 52 = k" using assms(3,5) by simp
  moreover have "\<not> 1023 < quotient_exponent a b" using assms(4) by simp
  moreover have "\<not> 2 ^ 1024 \<le> m * 2 ^ nat k" using assms(7) by simp
  moreover have "\<bar>a\<bar> = a" "\<bar>b\<bar> = b" "a \<noteq> 0" "b \<noteq> 0" "(a < 0) = (b < 0)"
    using assms(1,2) by simp_all
  ultimately show ?thesis
    unfolding int_truediv_def Let_def using assms(6) by (simp del: max.absorb1 max.absorb2 max.absorb3 max.absorb4)
qed

subsection \<open>\<open>is_valid\<close> decides \<open>u128_max < x^3\<close>\<close>

lemma u128_numbers:
  "0 < u128_max" "u128_max < 2 ^ 128" "u64_max ^ 2 \<le> u128_max"
  "cube_root_u128 ^ 3 \<le> u128_max" "u128_max < (cube_root_u128 + 1) ^ 3"
  "u128_max < (cube_root_u128 + 1) ^ 2 * 2 ^ 43"
  "(cube_root_u128 + 1) ^ 2 < 2 ^ 11 * ((cube_root_u128 + 1) ^ 3 - u128_max)"
  "cube_root_u128 < 2 ^ 52" "0 < cube_root_u128"
  by (simp_all add: u128_max_def u64_max_def cube_root_u128_def)

lemma cube_le_iff:
  assumes "1 \<le> x"
  shows "x ^ 3 \<le> u128_max \<longleftrightarrow> x \<le> cube_root_u128"
proof
  assume h: "x ^ 3 \<le> u128_max"
  show "x \<le> cube_root_u128"
  proof (rule ccontr)
    assume "\<not> x \<le> cube_root_u128"
    then have "cube_root_u128 + 1 \<le> x" by simp
    then have "(cube_root_u128 + 1) ^ 3 \<le> x ^ 3"
      using u128_numbers(9) by (intro power_mono) simp_all
    with h u128_numbers(5) show False by linarith
  qed
next
  assume "x \<le> cube_root_u128"
  then have "x ^ 3 \<le> cube_root_u128 ^ 3"
    using assms by (intro power_mono) simp_all
  with u128_numbers(4) show "x ^ 3 \<le> u128_max" by linarith
qed

lemma cube_gap:
  fixes x y :: int
  assumes "1 \<le> y" "y \<le> x"
  shows "x ^ 2 - y ^ 2 \<le> x ^ 3 - y ^ 3"
proof -
  have x1: "1 \<le> x" using assms by simp
  have "x * 1 \<le> x * x" using x1 by (intro mult_left_mono) simp_all
  moreover have "y * 1 \<le> y * y" using assms(1) by (intro mult_left_mono) simp_all
  moreover have "0 \<le> x * y" using x1 assms(1) by simp
  ultimately have "x + y \<le> x * x + x * y + y * y" by simp
  then have "(x - y) * (x + y) \<le> (x - y) * (x * x + x * y + y * y)"
    using assms(2) by (intro mult_left_mono) simp_all
  then show ?thesis by (simp add: power2_eq_square power3_eq_cube algebra_simps)
qed

lemma int_truediv_u128:
  assumes x: "1 \<le> x" "x \<le> u64_max"
  defines "e \<equiv> quotient_exponent u128_max (x ^ 2)"
  shows "0 \<le> e" and "e \<le> 127"
    and "x ^ 2 * 2 ^ nat e \<le> u128_max"
    and "int_truediv u128_max (x ^ 2) =
      Inr (round_half_even (u128_max * 2 ^ nat (52 - e)) (x ^ 2 * 2 ^ nat (e - 52)), e - 52)"
proof -
  define b where "b = x ^ 2"
  have b1: "1 \<le> b" using x(1) by (simp add: b_def)
  have "x ^ 2 \<le> u64_max ^ 2" using x by (intro power_mono) simp_all
  then have ba: "b \<le> u128_max" using u128_numbers(3) by (simp add: b_def)
  have bpos: "0 < b" using b1 by simp
  show e0: "0 \<le> e"
    using quotient_exponent_nonneg [OF bpos ba] by (simp add: e_def b_def)
  have qe: "b * 2 ^ nat e \<le> u128_max"
    using quotient_exponent_le [OF u128_numbers(1) bpos] e0 by (simp add: e_def b_def)
  then show "x ^ 2 * 2 ^ nat e \<le> u128_max" by (simp add: b_def)
  have "1 * 2 ^ nat e \<le> b * 2 ^ nat e" using b1 by (intro mult_right_mono) simp_all
  then have "(2::int) ^ nat e \<le> b * 2 ^ nat e" by (simp only: mult_1)
  with qe u128_numbers(2) have "(2::int) ^ nat e < 2 ^ 128" by linarith
  then have "nat e < 128" by (rule power_less_imp_less_exp [rotated]) simp
  then show e127: "e \<le> 127" by simp
  define p q where "p = u128_max * 2 ^ nat (52 - e)" and "q = b * 2 ^ nat (e - 52)"
  define m where "m = round_half_even p q"
  have q1: "1 \<le> q"
  proof -
    have "1 * 1 \<le> b * 2 ^ nat (e - 52)" using b1 by (intro mult_mono) simp_all
    then show ?thesis by (simp add: q_def)
  qed
  have p0: "0 \<le> p" using u128_numbers(1) by (simp add: p_def)
  have "u128_max * 2 ^ nat (52 - e) \<le> 2 ^ 128 * 2 ^ 52"
    using u128_numbers(1,2) e0 by (intro mult_mono power_increasing) simp_all
  then have p180: "p \<le> 2 ^ 180" by (simp add: p_def)
  have "p div q \<le> p div 1" using p0 q1 by (intro zdiv_mono2) simp_all
  then have "m \<le> p + 1" using round_half_even_le [of q p] q1 by (simp add: m_def)
  moreover have m0: "0 \<le> m"
  proof -
    have "0 \<le> p div q" using p0 q1 by (simp add: pos_imp_zdiv_nonneg_iff)
    then show ?thesis using round_half_even_ge [of q p] q1 by (simp add: m_def)
  qed
  ultimately have "m * 2 ^ nat (e - 52) \<le> (2 ^ 180 + 1) * 2 ^ 75"
    using p180 e127 by (intro mult_mono power_increasing) simp_all
  also have "\<dots> < (2::int) ^ 1024" by simp
  finally have nov: "\<not> 2 ^ 1024 \<le> m * 2 ^ nat (e - 52)" by simp
  have "m * 2 ^ nat (e - 52) < 2 ^ 1024" using nov by simp
  moreover have "- (e - 52) = 52 - e" by simp
  ultimately have "int_truediv u128_max b = Inr (m, e - 52)"
    using u128_numbers(1) bpos e0 e127
    by (intro int_truediv_pos) (simp_all add: e_def b_def m_def p_def q_def)
  then show "int_truediv u128_max (x ^ 2) =
      Inr (round_half_even (u128_max * 2 ^ nat (52 - e)) (x ^ 2 * 2 ^ nat (e - 52)), e - 52)"
    by (simp add: m_def p_def q_def b_def)
qed

lemma le_div_int:
  fixes a b c :: int
  assumes "0 < c" "a * c \<le> b"
  shows "a \<le> b div c"
proof -
  have "(a * c) div c \<le> b div c" using assms by (intro zdiv_mono1) simp_all
  then show ?thesis using assms(1) by simp
qed

text \<open>
  The floating-point test of \<open>is_valid\<close> decides what the exact comparison does: for
  \<open>1 \<le> x \<le> 2^64 - 1\<close> the rounded quotient \<open>u128_max / x^2\<close> is below \<open>x\<close> exactly when
  \<open>u128_max < x^3\<close>.
\<close>

lemma is_valid_exact:
  assumes x: "1 \<le> x" "x \<le> u64_max"
  shows "is_valid x = Inr (u128_max < x ^ 3)"
proof -
  define e where "e = quotient_exponent u128_max (x ^ 2)"
  define m where "m = round_half_even (u128_max * 2 ^ nat (52 - e)) (x ^ 2 * 2 ^ nat (e - 52))"
  note td = int_truediv_u128 [OF x, folded e_def]
  have b0: "0 < x ^ 2" using x(1) by simp
  have q0: "0 < x ^ 2 * 2 ^ nat (e - 52)" using b0 by simp
  have valid: "is_valid x = Inr (m * 2 ^ nat (e - 52) < x * 2 ^ nat (52 - e))"
    using x(2) td(4) by (simp add: is_valid_def double_lt_int_def m_def)
  have "(m * 2 ^ nat (e - 52) < x * 2 ^ nat (52 - e)) = (u128_max < x ^ 3)"
  proof (cases "u128_max < x ^ 3")
    case True
    define y where "y = cube_root_u128 + 1"
    have yx: "y \<le> x" using True cube_le_iff [OF x(1)] by (simp add: y_def)
    have y1: "1 \<le> y" using u128_numbers(9) by (simp add: y_def)
    have "y ^ 2 \<le> x ^ 2" using yx y1 by (intro power_mono) simp_all
    then have "y ^ 2 * 2 ^ 43 \<le> x ^ 2 * 2 ^ 43" by simp
    with u128_numbers(6) have big: "u128_max < x ^ 2 * 2 ^ 43" by (simp add: y_def)
    have e42: "e \<le> 42"
    proof (rule ccontr)
      assume "\<not> e \<le> 42"
      then have "43 \<le> nat e" by simp
      then have "(2::int) ^ 43 \<le> 2 ^ nat e" by (intro power_increasing) simp_all
      then have "x ^ 2 * 2 ^ 43 \<le> x ^ 2 * 2 ^ nat e" using b0 by (intro mult_left_mono) simp_all
      with td(3) big show False by linarith
    qed
    define j where "j = nat (52 - e)"
    have j10: "10 \<le> j" using e42 by (simp add: j_def)
    have k0: "nat (e - 52) = 0" using e42 by simp
    have m: "m = round_half_even (u128_max * 2 ^ j) (x ^ 2)" by (simp add: m_def k0 j_def)
    have gap: "x ^ 2 < 2 ^ 11 * (x ^ 3 - u128_max)"
    proof -
      have "x ^ 2 - y ^ 2 \<le> x ^ 3 - y ^ 3" using y1 yx by (rule cube_gap)
      moreover have "y ^ 2 < 2 ^ 11 * (y ^ 3 - u128_max)"
        using u128_numbers(7) by (simp add: y_def)
      moreover have "0 \<le> x ^ 3 - y ^ 3" using yx y1 by (simp add: power_mono)
      ultimately show ?thesis by simp
    qed
    have "(2::int) ^ 11 \<le> 2 ^ Suc j" using j10 by (intro power_increasing) simp_all
    then have "2 ^ 11 * (x ^ 3 - u128_max) \<le> 2 ^ Suc j * (x ^ 3 - u128_max)"
      using True by (intro mult_right_mono) simp_all
    with gap have "x ^ 2 < 2 ^ Suc j * (x ^ 3 - u128_max)" by linarith
    then have "2 * (u128_max * 2 ^ j) < (2 * (x * 2 ^ j) - 1) * x ^ 2"
      by (simp add: algebra_simps power3_eq_cube power2_eq_square)
    from round_half_even_below [OF b0 this] have "m \<le> x * 2 ^ j - 1" by (simp add: m)
    then show ?thesis using True by (simp add: k0 j_def)
  next
    case False
    then have le: "x ^ 3 \<le> u128_max" by simp
    then have xc: "x \<le> cube_root_u128" using cube_le_iff [OF x(1)] by simp
    have p0: "0 \<le> u128_max * 2 ^ nat (52 - e)" using u128_numbers(1) by simp
    have mge: "(u128_max * 2 ^ nat (52 - e)) div (x ^ 2 * 2 ^ nat (e - 52)) \<le> m"
      unfolding m_def using q0 by (rule round_half_even_ge)
    have "x * 2 ^ nat (52 - e) \<le> m * 2 ^ nat (e - 52)"
    proof (cases "52 \<le> e")
      case True
      then have j0: "nat (52 - e) = 0" and ek: "nat e = 52 + nat (e - 52)" by simp_all
      have "2 ^ 52 * (x ^ 2 * 2 ^ nat (e - 52)) \<le> u128_max"
        using td(3) by (simp add: ek power_add algebra_simps)
      then have "2 ^ 52 \<le> u128_max div (x ^ 2 * 2 ^ nat (e - 52))"
        using q0 by (intro le_div_int) simp_all
      then have "2 ^ 52 \<le> m" using mge by (simp add: j0)
      then have "x \<le> m" using xc u128_numbers(8) by linarith
      moreover have "m * 1 \<le> m * 2 ^ nat (e - 52)"
        using \<open>2 ^ 52 \<le> m\<close> by (intro mult_left_mono) simp_all
      ultimately show ?thesis by (simp add: j0)
    next
      case False
      then have k0: "nat (e - 52) = 0" by simp
      have "x ^ 3 * 2 ^ nat (52 - e) \<le> u128_max * 2 ^ nat (52 - e)"
        using le by (intro mult_right_mono) simp_all
      then have "(x * 2 ^ nat (52 - e)) * x ^ 2 \<le> u128_max * 2 ^ nat (52 - e)"
        by (simp add: power3_eq_cube power2_eq_square algebra_simps)
      then have "x * 2 ^ nat (52 - e) \<le> (u128_max * 2 ^ nat (52 - e)) div x ^ 2"
        using b0 by (intro le_div_int) simp_all
      then show ?thesis using mge by (simp add: k0)
    qed
    then show ?thesis using False by simp
  qed
  with valid show ?thesis by simp
qed

lemma is_valid_large: "u64_max < x \<Longrightarrow> is_valid x = Inr False"
  by (simp add: is_valid_def)

subsection \<open>The exact logarithm\<close>

declare floor_log.simps [simp del]

lemma mult_div_le_int:
  fixes a b :: int
  assumes "0 < b"
  shows "b * (a div b) \<le> a"
proof -
  have "a = b * (a div b) + a mod b" by simp
  moreover have "0 \<le> a mod b" using assms by simp
  ultimately show ?thesis by linarith
qed

lemma div_mult_gt_int:
  fixes a b :: int
  assumes "0 < b"
  shows "a < b * (a div b + 1)"
proof -
  have "a = b * (a div b) + a mod b" by simp
  moreover have "a mod b < b" using assms by simp
  moreover have "b * (a div b + 1) = b * (a div b) + b" by (simp add: algebra_simps)
  ultimately show ?thesis by linarith
qed

lemma floor_log_bounds:
  assumes "2 \<le> b" "1 \<le> a"
  shows "b ^ floor_log b a \<le> a \<and> a < b ^ Suc (floor_log b a)"
  using assms
proof (induction b a rule: floor_log.induct)
  case (1 b a)
  show ?case
  proof (cases "a < b")
    case True
    then show ?thesis using "1.prems" by (simp add: floor_log.simps [of b a])
  next
    case False
    then have fl: "floor_log b a = Suc (floor_log b (a div b))"
      using "1.prems" by (simp add: floor_log.simps [of b a])
    have b0: "0 < b" using "1.prems" by simp
    have "1 * b \<le> a" using False by simp
    then have q1: "1 \<le> a div b" using b0 by (intro le_div_int)
    from "1.IH" "1.prems" False q1
    have ih: "b ^ floor_log b (a div b) \<le> a div b" "a div b < b ^ Suc (floor_log b (a div b))"
      by simp_all
    have "b * b ^ floor_log b (a div b) \<le> b * (a div b)"
      using ih(1) b0 by (intro mult_left_mono) simp_all
    also have "\<dots> \<le> a" using b0 by (rule mult_div_le_int)
    finally have lo: "b ^ floor_log b a \<le> a" by (simp add: fl)
    have "a div b + 1 \<le> b ^ Suc (floor_log b (a div b))" using ih(2) by simp
    then have "b * (a div b + 1) \<le> b * b ^ Suc (floor_log b (a div b))"
      using b0 by (intro mult_left_mono) simp_all
    moreover have "a < b * (a div b + 1)" using b0 by (rule div_mult_gt_int)
    ultimately have hi: "a < b ^ Suc (floor_log b a)" by (simp add: fl)
    from lo hi show ?thesis by simp
  qed
qed

lemma power_sandwich_unique:
  fixes b :: int
  assumes b: "2 \<le> b" and 1: "b ^ j \<le> a" "a < b ^ Suc j" and 2: "b ^ k \<le> a" "a < b ^ Suc k"
  shows "j = k"
proof -
  have b1: "1 < b" using b by simp
  have "b ^ j < b ^ Suc k" using 1(1) 2(2) by linarith
  then have "j < Suc k" using b1 by (rule power_less_imp_less_exp [rotated])
  moreover have "b ^ k < b ^ Suc j" using 2(1) 1(2) by linarith
  then have "k < Suc j" using b1 by (rule power_less_imp_less_exp [rotated])
  ultimately show ?thesis by simp
qed

lemma floor_log_eqI:
  assumes "2 \<le> b" "b ^ k \<le> a" "a < b ^ Suc k"
  shows "floor_log b a = k"
proof -
  have "0 < b ^ k" using assms(1) by simp
  with assms(2) have "1 \<le> a" by linarith
  from floor_log_bounds [OF assms(1) this] assms show ?thesis
    by (intro power_sandwich_unique [of b _ a]) simp_all
qed

subsection \<open>\<open>find_power\<close>\<close>

lemma find_power_loop_run:
  assumes stop: "is_valid (radix ^ Suc E) = Inr False"
    and valid: "\<And>k. p \<le> k \<Longrightarrow> k \<le> E \<Longrightarrow> is_valid (radix ^ k) = Inr True"
    and "p \<le> Suc E"
  shows "find_power_loop radix p = Some (Inr (int E))"
  using assms(3) valid
proof (induction "Suc E - p" arbitrary: p)
  case 0
  then have "p = Suc E" by simp
  then show ?case using stop by (subst find_power_loop.simps) simp
next
  case (Suc n)
  then have pE: "p \<le> E" by simp
  then have v: "is_valid (radix ^ p) = Inr True" using Suc.prems(2) by simp
  have "find_power_loop radix (p + 1) = Some (Inr (int E))"
    using Suc.hyps(2) pE Suc.prems(2) by (intro Suc.hyps(1)) simp_all
  then show ?case using v by (subst find_power_loop.simps) simp
qed

lemma u64_numbers:
  "0 < u64_max" "cube_root_u128 * 36 ^ 3 \<le> u64_max" "(36::int) ^ 2 \<le> u64_max"
  by (simp_all add: u64_max_def cube_root_u128_def)

lemma radix_floor_log:
  assumes "2 \<le> radix"
  shows "radix ^ floor_log radix u64_max \<le> u64_max"
    and "u64_max < radix ^ Suc (floor_log radix u64_max)"
  using floor_log_bounds [OF assms, of u64_max] u64_numbers(1) by simp_all

lemma is_valid_power:
  assumes r: "2 \<le> radix" "radix \<le> 36"
    and k: "k \<le> floor_log radix u64_max" "floor_log radix u64_max \<le> k + 2"
  shows "is_valid (radix ^ k) = Inr True"
    and "radix ^ k \<le> u64_max" and "u128_max < (radix ^ k) ^ 3"
proof -
  define E where "E = floor_log radix u64_max"
  have r1: "1 \<le> radix" using r(1) by simp
  have x1: "1 \<le> radix ^ k" using r1 by simp
  have "radix ^ k \<le> radix ^ E" using r1 k(1) by (intro power_increasing) (simp_all add: E_def)
  with radix_floor_log(1) [OF r(1)] show xu: "radix ^ k \<le> u64_max" by (simp add: E_def)
  have big: "cube_root_u128 < radix ^ k"
  proof (rule ccontr)
    assume "\<not> cube_root_u128 < radix ^ k"
    then have le: "radix ^ k \<le> cube_root_u128" by simp
    have "radix ^ 3 \<le> 36 ^ 3" using r by (intro power_mono) simp_all
    with le have "radix ^ k * radix ^ 3 \<le> cube_root_u128 * 36 ^ 3"
      using r1 u128_numbers(9) by (intro mult_mono) simp_all
    moreover have "radix ^ Suc E \<le> radix ^ (k + 3)"
      using r1 k(2) by (intro power_increasing) (simp_all add: E_def)
    ultimately have "radix ^ Suc E \<le> u64_max"
      using u64_numbers(2) by (simp add: power_add)
    with radix_floor_log(2) [OF r(1)] show False by (simp add: E_def)
  qed
  then show cube: "u128_max < (radix ^ k) ^ 3"
    using cube_le_iff [OF x1] by simp
  show "is_valid (radix ^ k) = Inr True"
    using is_valid_exact [OF x1 xu] cube by simp
qed

lemma is_valid_beyond:
  assumes r: "2 \<le> radix" and k: "floor_log radix u64_max < k"
  shows "is_valid (radix ^ k) = Inr False"
proof -
  have "radix ^ Suc (floor_log radix u64_max) \<le> radix ^ k"
    using r k by (intro power_increasing) simp_all
  with radix_floor_log(2) [OF r] have "u64_max < radix ^ k" by simp
  then show ?thesis by (rule is_valid_large)
qed

lemma floor_log_ge2:
  assumes "2 \<le> radix" "radix \<le> 36"
  shows "2 \<le> floor_log radix u64_max"
proof (rule ccontr)
  assume "\<not> 2 \<le> floor_log radix u64_max"
  then have "Suc (floor_log radix u64_max) \<le> 2" by simp
  then have "radix ^ Suc (floor_log radix u64_max) \<le> radix ^ 2"
    using assms(1) by (intro power_increasing) simp_all
  also have "\<dots> \<le> 36 ^ 2" using assms by (intro power_mono) simp_all
  also note u64_numbers(3)
  finally show False using radix_floor_log(2) [OF assms(1)] by simp
qed

lemma log_floor_ok_range:
  assumes r: "2 \<le> radix" "radix \<le> 36" and ok: "log_floor_ok lm radix"
  shows "1 \<le> math_log_floor lm u64_max radix"
    and "math_log_floor lm u64_max radix - 1 \<le> floor_log radix u64_max"
    and "floor_log radix u64_max \<le> math_log_floor lm u64_max radix + 1"
proof -
  define L where "L = math_log_floor lm u64_max radix"
  define E where "E = floor_log radix u64_max"
  have r1: "1 < radix" using r(1) by simp
  from ok have lo: "radix ^ (L - 1) \<le> u64_max" and hi: "u64_max < radix ^ (L + 2)"
    by (simp_all add: log_floor_ok_def L_def)
  note fl = radix_floor_log [OF r(1), folded E_def]
  have "radix ^ (L - 1) < radix ^ Suc E" using lo fl(2) by linarith
  then have "L - 1 < Suc E" using r1 by (rule power_less_imp_less_exp [rotated])
  then show "L - 1 \<le> E" by simp
  have "radix ^ E < radix ^ (L + 2)" using hi fl(1) by linarith
  then have "E < L + 2" using r1 by (rule power_less_imp_less_exp [rotated])
  then show "E \<le> L + 1" by simp
  show "1 \<le> L"
  proof (rule ccontr)
    assume "\<not> 1 \<le> L"
    then have "L = 0" by simp
    with hi have "u64_max < radix ^ 2" by (simp add: power2_eq_square)
    also have "\<dots> \<le> 36 ^ 2" using r by (intro power_mono) simp_all
    finally show False using u64_numbers(3) by simp
  qed
qed

text \<open>
  Whatever the start within the tolerance, \<open>find_power\<close> returns the exact floor of
  \<open>log_radix (2^64 - 1)\<close>.
\<close>

lemma find_power_result:
  assumes r: "2 \<le> radix" "radix \<le> 36" and ok: "log_floor_ok lm radix"
  shows "find_power lm radix = Some (Inr (int (floor_log radix u64_max)))"
proof -
  define L where "L = math_log_floor lm u64_max radix"
  define E where "E = floor_log radix u64_max"
  note rng = log_floor_ok_range [OF r ok, folded L_def E_def]
  have start: "nat (int L - 1) = L - 1" "\<not> int L - 1 < 0" using rng(1) by linarith+
  have "find_power lm radix = find_power_loop radix (L - 1)"
    using r(1) start by (simp add: find_power_def L_def [symmetric] Let_def)
  also have "\<dots> = Some (Inr (int E))"
  proof (rule find_power_loop_run)
    show "is_valid (radix ^ Suc E) = Inr False"
      using r(1) by (intro is_valid_beyond) (simp_all add: E_def)
    show "L - 1 \<le> Suc E" using rng(2) by simp
    fix k assume "L - 1 \<le> k" "k \<le> E"
    then show "is_valid (radix ^ k) = Inr True"
      using rng(3) r by (intro is_valid_power(1)) (simp_all add: E_def)
  qed
  finally show ?thesis by (simp add: E_def)
qed

lemma floor_log_10: "floor_log 10 u64_max = 19"
  by (rule floor_log_eqI) (simp_all add: u64_max_def)

lemma floor_log_3: "floor_log 3 u64_max = 40"
  by (rule floor_log_eqI) (simp_all add: u64_max_def)

lemma exact_libm_simps:
  "log_floor exact_libm a b = floor_log b a"
  "log2_ceil exact_libm d = bit_length (d - 1)"
  "log2_trunc exact_libm d = bit_length d - 1"
  by (simp_all add: exact_libm_def)

lemma exact_log_floor_ok:
  assumes "2 \<le> radix" "radix \<le> 36"
  shows "log_floor_ok exact_libm radix"
proof -
  define L where "L = floor_log radix (2 ^ 64)"
  have fr: "float_of_int radix = radix" using assms by (intro float_of_int_small) simp
  have L: "math_log_floor exact_libm u64_max radix = L"
    by (simp add: math_log_floor_def exact_libm_simps float_of_int_u64_max fr L_def)
  from floor_log_bounds [OF assms(1), of "2 ^ 64"]
  have b: "radix ^ L \<le> 2 ^ 64" "2 ^ 64 < radix ^ Suc L" by (simp_all add: L_def)
  have lo: "radix ^ (L - 1) \<le> u64_max"
  proof (cases L)
    case 0
    then show ?thesis by (simp add: u64_max_def)
  next
    case (Suc k)
    have "2 * radix ^ k \<le> radix * radix ^ k"
      using assms(1) by (intro mult_right_mono) simp_all
    with b(1) Suc have "2 * radix ^ k \<le> 2 ^ 64" by simp
    then show ?thesis using Suc by (simp add: u64_max_def)
  qed
  have "radix ^ Suc L \<le> radix ^ (L + 2)" using assms(1) by (intro power_increasing) simp_all
  with b(2) have hi: "u64_max < radix ^ (L + 2)" by (simp add: u64_max_def)
  from lo hi show ?thesis by (simp add: log_floor_ok_def L)
qed

text \<open>
  C3.  For a radix from 2 to 36, and a \<open>libm\<close> whose logarithm is within one of the
  exact one, \<open>find_power\<close> returns the largest exponent \<open>d\<close> for which \<open>radix^d\<close> is
  valid: \<open>is_valid\<close> holds at \<open>d\<close>, which means \<open>radix^d \<le> 2^64 - 1\<close> and
  \<open>2^128 - 1 < (radix^d)^3\<close>, it fails at \<open>d + 1\<close> and at every larger exponent, and
  for radix 10 the exponent is 19.
\<close>

theorem find_power_largest_valid:
  assumes "2 \<le> radix" "radix \<le> 36" "log_floor_ok lm radix"
  shows "\<exists>d. find_power lm radix = Some (Inr (int d))
    \<and> is_valid (radix ^ d) = Inr True
    \<and> radix ^ d \<le> u64_max \<and> u128_max < (radix ^ d) ^ 3
    \<and> is_valid (radix ^ (d + 1)) = Inr False
    \<and> (\<forall>k. is_valid (radix ^ k) = Inr True \<longrightarrow> k \<le> d)
    \<and> (radix = 10 \<longrightarrow> d = 19)"
proof -
  define E where "E = floor_log radix u64_max"
  have 1: "find_power lm radix = Some (Inr (int E))"
    unfolding E_def using assms by (rule find_power_result)
  note v = is_valid_power [OF assms(1,2), of E, folded E_def]
  have 2: "is_valid (radix ^ E) = Inr True" "radix ^ E \<le> u64_max" "u128_max < (radix ^ E) ^ 3"
    using v by (simp_all add: E_def)
  have 3: "is_valid (radix ^ k) = Inr False" if "E < k" for k
    using assms(1) that by (intro is_valid_beyond) (simp_all add: E_def)
  have 4: "k \<le> E" if "is_valid (radix ^ k) = Inr True" for k
  proof (rule ccontr)
    assume "\<not> k \<le> E"
    then have "is_valid (radix ^ k) = Inr False" by (intro 3) simp
    with that show False by simp
  qed
  have 5: "radix = 10 \<longrightarrow> E = 19" by (simp add: E_def floor_log_10)
  from 1 2 3 [of "E + 1"] 4 5 show ?thesis by (intro exI [of _ E]) simp
qed

theorem find_power_largest_valid_witness:
  "log_floor_ok exact_libm 10 \<and> find_power exact_libm 10 = Some (Inr 19)
    \<and> is_valid (10 ^ 19) = Inr True \<and> is_valid (10 ^ 20) = Inr False"
proof -
  have ok: "log_floor_ok exact_libm 10" by (rule exact_log_floor_ok) simp_all
  from find_power_largest_valid [of 10 exact_libm, OF _ _ ok]
  obtain d where "find_power exact_libm 10 = Some (Inr (int d))"
    "is_valid (10 ^ d) = Inr True" "is_valid (10 ^ (d + 1)) = Inr False" "d = 19"
    by auto
  with ok show ?thesis by simp
qed

text \<open>
  C8, as stated, fails: the first power of a radix is not valid.  At radix 10,
  \<open>is_valid 10\<close> is false.
\<close>

theorem is_valid_radix_counterexample: "is_valid 10 = Inr False"
  using is_valid_exact [of 10] by (simp add: u64_max_def u128_max_def)

text \<open>
  C8, amended.  For a radix from 2 to 36 the exponent 1 is not valid: \<open>is_valid radix\<close>
  is false, because \<open>radix^3 \<le> 2^128 - 1\<close>.  The radix has a valid power all the same:
  \<open>radix^d\<close> with \<open>d\<close> the exact floor of \<open>log_radix (2^64 - 1)\<close>.
\<close>

theorem is_valid_radix_false:
  assumes "2 \<le> radix" "radix \<le> 36"
  shows "is_valid (radix ^ 1) = Inr False
    \<and> is_valid (radix ^ floor_log radix u64_max) = Inr True"
proof -
  have "radix \<le> cube_root_u128" using assms(2) by (simp add: cube_root_u128_def)
  then have "radix ^ 3 \<le> u128_max" using cube_le_iff [of radix] assms(1) by simp
  moreover have "radix \<le> u64_max" using assms(2) by (simp add: u64_max_def)
  ultimately have "is_valid radix = Inr False"
    using is_valid_exact [of radix] assms(1) by simp
  moreover have "is_valid (radix ^ floor_log radix u64_max) = Inr True"
    using assms by (intro is_valid_power(1)) simp_all
  ultimately show ?thesis by simp
qed

theorem is_valid_radix_false_witness:
  "is_valid (3 ^ 1) = Inr False \<and> is_valid (3 ^ 40) = Inr True"
  using is_valid_radix_false [of 3] by (simp add: floor_log_3)

subsection \<open>\<open>fast_shift\<close>\<close>

lemma fast_shift_loop_Some_nonzero:
  assumes "fast_shift_loop divisor n = Some k"
  shows "divisor \<noteq> 0"
proof (rule fast_shift_loop.raw_induct [where P = "\<lambda>d n k. d \<noteq> 0", OF _ assms])
  fix loop :: "int \<Rightarrow> nat \<Rightarrow> nat option" and d :: int and n k :: nat
  assume IH: "\<And>d n k. loop d n = Some k \<Longrightarrow> d \<noteq> 0"
    and body: "(if d mod 2 ^ (n + 1) = 0 then loop d (n + 1) else Some n) = Some k"
  show "d \<noteq> 0"
  proof (cases "d mod 2 ^ (n + 1) = 0")
    case True
    with body have "loop d (n + 1) = Some k" by simp
    then show ?thesis by (rule IH)
  next
    case False
    then show ?thesis by auto
  qed
qed

lemma fast_shift_zero: "fast_shift 0 = None"
proof (cases "fast_shift 0")
  case (Some k)
  then have "(0::int) \<noteq> 0"
    unfolding fast_shift_def by (rule fast_shift_loop_Some_nonzero)
  then show ?thesis by simp
qed simp

lemma fast_shift_loop_terminates:
  assumes "divisor \<noteq> 0" "2 ^ n dvd divisor"
  shows "\<exists>k. fast_shift_loop divisor n = Some k \<and> n \<le> k
    \<and> 2 ^ k dvd divisor \<and> \<not> 2 ^ (k + 1) dvd divisor"
  using assms(2)
proof (induction "nat \<bar>divisor\<bar> - n" arbitrary: n rule: less_induct)
  case less
  show ?case
  proof (cases "divisor mod 2 ^ (n + 1) = 0")
    case True
    then have dv: "(2::int) ^ (n + 1) dvd divisor" by (simp add: dvd_eq_mod_eq_0)
    then have "(2::int) ^ (n + 1) dvd \<bar>divisor\<bar>" by simp
    then have "(2::int) ^ (n + 1) \<le> \<bar>divisor\<bar>"
      using assms(1) by (intro zdvd_imp_le) simp_all
    moreover have "int (n + 1) < 2 ^ (n + 1)"
      using less_exp [of "n + 1"] by (metis of_nat_less_iff of_nat_numeral of_nat_power)
    ultimately have "n + 1 < nat \<bar>divisor\<bar> + 1" by linarith
    then have "nat \<bar>divisor\<bar> - (n + 1) < nat \<bar>divisor\<bar> - n" by simp
    from less.hyps [OF this dv] obtain k where
      "fast_shift_loop divisor (n + 1) = Some k" "n + 1 \<le> k"
      "2 ^ k dvd divisor" "\<not> 2 ^ (k + 1) dvd divisor" by blast
    then show ?thesis using True by (subst fast_shift_loop.simps) auto
  next
    case False
    then have "\<not> (2::int) ^ (n + 1) dvd divisor" by (simp add: dvd_eq_mod_eq_0)
    then show ?thesis using False less.prems by (subst fast_shift_loop.simps) auto
  qed
qed

text \<open>
  On a divisor other than 0, \<open>fast_shift\<close> returns the number of trailing zero bits.
\<close>

lemma fast_shift_terminates:
  assumes "divisor \<noteq> 0"
  shows "\<exists>k. fast_shift divisor = Some k \<and> 2 ^ k dvd divisor \<and> \<not> 2 ^ (k + 1) dvd divisor"
  using fast_shift_loop_terminates [OF assms, of 0] by (auto simp: fast_shift_def)

lemma fast_shift_dvd:
  assumes "fast_shift divisor = Some shr"
  shows "2 ^ shr dvd divisor" and "divisor mod 2 ^ shr = 0" and "\<not> 2 ^ (shr + 1) dvd divisor"
    and "divisor \<noteq> 0"
proof -
  show nz: "divisor \<noteq> 0"
    using assms unfolding fast_shift_def by (rule fast_shift_loop_Some_nonzero)
  from fast_shift_terminates [OF nz] assms
  show "2 ^ shr dvd divisor" and "\<not> 2 ^ (shr + 1) dvd divisor" by auto
  then show "divisor mod 2 ^ shr = 0" by (simp add: dvd_eq_mod_eq_0)
qed

text \<open>Dividing both operands by a common power of two keeps the quotient.\<close>

lemma shifted_quotient:
  fixes divisor n :: int
  assumes d: "1 \<le> divisor" and dv: "2 ^ shr dvd divisor"
  shows "drop_bit shr n div drop_bit shr divisor = n div divisor"
    and "1 \<le> drop_bit shr divisor"
proof -
  define d' where "d' = divisor div 2 ^ shr"
  have eq: "divisor = 2 ^ shr * d'" using dv by (simp add: d'_def)
  have "0 < 2 ^ shr * d'" using d eq by simp
  then have d'0: "0 < d'" by (simp add: zero_less_mult_iff)
  then show "1 \<le> drop_bit shr divisor" by (simp add: drop_bit_eq_div d'_def)
  have "n div (2 ^ shr * d') = n div 2 ^ shr div d'"
    using d'0 by (intro zdiv_zmult2_eq) simp
  then show "drop_bit shr n div drop_bit shr divisor = n div divisor"
    by (simp add: drop_bit_eq_div d'_def [symmetric]) (simp add: eq)
qed

subsection \<open>\<open>choose_multiplier\<close> and division by multiplication\<close>

declare choose_multiplier_loop.simps [simp del]

lemma div_less_int:
  fixes a b c :: int
  assumes "0 < c" "a < b * c"
  shows "a div c < b"
proof (rule ccontr)
  assume "\<not> a div c < b"
  then have "b * c \<le> (a div c) * c" using assms(1) by (intro mult_right_mono) simp_all
  also have "\<dots> \<le> a" using mult_div_le_int [OF assms(1), of a] by (simp add: mult.commute)
  finally show False using assms(2) by simp
qed

lemma halve_quotient:
  fixes a d :: int
  assumes "0 < d"
  shows "(2 * a) div d div 2 = a div d"
proof -
  have "(2 * a) div (d * 2) = (2 * a) div d div 2" by (intro zdiv_zmult2_eq) simp
  moreover have "(2 * a) div (2 * d) = (2 * a) div 2 div d"
    using assms by (intro zdiv_zmult2_eq) simp
  ultimately show ?thesis by (simp add: mult.commute)
qed

lemma spec_halve_eq: "spec_halve m_low m_high sh_post = choose_multiplier_loop m_low m_high sh_post"
proof (induction sh_post arbitrary: m_low m_high)
  case 0
  show ?case by (subst choose_multiplier_loop.simps) simp
next
  case (Suc s)
  have fl: "\<lfloor>real_of_int k / 2\<rfloor> = k div 2" for k
    using floor_divide_of_int_eq [of k 2, where ?'a = real] by simp
  show ?case
    by (subst choose_multiplier_loop.simps) (simp add: fl Suc.IH)
qed

text \<open>
  The bounds of the loop after it has run down to the shift \<open>s\<close>, for the unsigned case
  (precision equal to the number of bits \<open>N\<close>).
\<close>

lemma choose_multiplier_loop_invariant:
  fixes d :: int
  assumes d: "0 < d"
    and start: "2 ^ (N + s) \<le> ((2 ^ (N + s) + 2 ^ s) div d) * d"
  shows "\<exists>s'\<le>s. choose_multiplier_loop (2 ^ (N + s) div d) ((2 ^ (N + s) + 2 ^ s) div d) s
        = (2 ^ (N + s') div d, (2 ^ (N + s') + 2 ^ s') div d, s')
      \<and> 2 ^ (N + s') \<le> ((2 ^ (N + s') + 2 ^ s') div d) * d"
  using start
proof (induction s)
  case 0
  then show ?case by (subst choose_multiplier_loop.simps) simp
next
  case (Suc s)
  define lo hi where "lo = (2::int) ^ (N + s) div d" and "hi = ((2::int) ^ (N + s) + 2 ^ s) div d"
  have lo: "(2 ^ (N + Suc s) div d) div 2 = lo"
    using halve_quotient [OF d, of "2 ^ (N + s)"] by (simp add: lo_def)
  have hi: "((2 ^ (N + Suc s) + 2 ^ Suc s) div d) div 2 = hi"
    using halve_quotient [OF d, of "2 ^ (N + s) + 2 ^ s"] by (simp add: hi_def algebra_simps)
  show ?case
  proof (cases "lo < hi")
    case True
    then have "(lo + 1) * d \<le> hi * d" using d by (intro mult_right_mono) simp_all
    moreover have "2 ^ (N + s) < d * (lo + 1)"
      unfolding lo_def using d by (rule div_mult_gt_int)
    ultimately have "2 ^ (N + s) \<le> hi * d" by (simp add: mult.commute)
    from Suc.IH [OF this [unfolded hi_def]] obtain s' where s': "s' \<le> s"
      "choose_multiplier_loop lo hi s = (2 ^ (N + s') div d, (2 ^ (N + s') + 2 ^ s') div d, s')"
      "2 ^ (N + s') \<le> ((2 ^ (N + s') + 2 ^ s') div d) * d"
      unfolding lo_def hi_def by blast
    have "choose_multiplier_loop (2 ^ (N + Suc s) div d) ((2 ^ (N + Suc s) + 2 ^ Suc s) div d) (Suc s)
        = choose_multiplier_loop lo hi s"
      using True by (subst choose_multiplier_loop.simps) (simp only: lo hi, simp)
    with s' show ?thesis by (intro exI [of _ s']) simp
  next
    case False
    have "choose_multiplier_loop (2 ^ (N + Suc s) div d) ((2 ^ (N + Suc s) + 2 ^ Suc s) div d) (Suc s)
        = (2 ^ (N + Suc s) div d, (2 ^ (N + Suc s) + 2 ^ Suc s) div d, Suc s)"
      using False by (subst choose_multiplier_loop.simps) (simp only: lo hi, simp)
    with Suc.prems show ?thesis by (intro exI [of _ "Suc s"]) simp
  qed
qed

text \<open>Theorem 4.2 of Granlund and Montgomery, on integers.\<close>

lemma multiply_shift_divides:
  fixes d n m :: int
  assumes d: "0 < d" and n: "0 \<le> n" "n < 2 ^ N"
    and lo: "2 ^ (N + s) \<le> m * d" and hi: "m * d \<le> 2 ^ (N + s) + 2 ^ s"
  shows "(n * m) div 2 ^ (N + s) = n div d"
proof -
  define q T where "q = n div d" and "T = (2::int) ^ (N + s)"
  have T0: "0 < T" by (simp add: T_def)
  have qd: "d * q \<le> n" unfolding q_def using d by (rule mult_div_le_int)
  have nq: "n < d * (q + 1)" unfolding q_def using d by (rule div_mult_gt_int)
  have "(q * T) * d = (d * q) * T" by (simp add: algebra_simps)
  also have "\<dots> \<le> n * T" using qd T0 by (intro mult_right_mono) simp_all
  also have "\<dots> \<le> n * (m * d)" using lo n(1) by (intro mult_left_mono) (simp_all add: T_def)
  finally have "(q * T) * d \<le> (n * m) * d" by (simp add: algebra_simps)
  then have lower: "q * T \<le> n * m" using d by simp
  have "n * 2 ^ s < 2 ^ N * 2 ^ s" using n(2) by (intro mult_strict_right_mono) simp_all
  then have ns: "n * 2 ^ s < T" by (simp add: T_def power_add)
  have "(n * m) * d = n * (m * d)" by (simp add: algebra_simps)
  also have "\<dots> \<le> n * (T + 2 ^ s)" using hi n(1) by (intro mult_left_mono) (simp_all add: T_def)
  also have "\<dots> < n * T + T" using ns by (simp add: algebra_simps)
  also have "\<dots> = (n + 1) * T" by (simp add: algebra_simps)
  also have "\<dots> \<le> (d * (q + 1)) * T" using nq T0 by (intro mult_right_mono) simp_all
  finally have "(n * m) * d < ((q + 1) * T) * d" by (simp add: algebra_simps)
  then have upper: "n * m < (q + 1) * T" using d by simp
  have "q \<le> (n * m) div T" using T0 lower by (intro le_div_int)
  moreover have "(n * m) div T < q + 1"
    using T0 upper by (rule div_less_int)
  ultimately show ?thesis by (simp add: q_def T_def)
qed

lemma choose_multiplier_unsigned:
  assumes "1 \<le> divisor"
  shows "choose_multiplier lm divisor bits False =
    (case choose_multiplier_loop (2 ^ (bits + math_log2_ceil lm divisor) div divisor)
        ((2 ^ (bits + math_log2_ceil lm divisor) + 2 ^ math_log2_ceil lm divisor) div divisor)
        (math_log2_ceil lm divisor) of
      (m_low, m_high, sh_post) \<Rightarrow> Inr (m_high, sh_post, math_log2_ceil lm divisor))"
  using assms by (simp add: choose_multiplier_def Let_def)

lemma choose_multiplier_total:
  assumes "1 \<le> divisor"
  shows "\<exists>factor factor_shr.
    choose_multiplier lm divisor bits is_signed = Inr (factor, factor_shr, math_log2_ceil lm divisor)"
  using assms by (simp add: choose_multiplier_def Let_def split: prod.splits)

lemma choose_multiplier_sound:
  assumes d: "1 \<le> divisor" and ok: "log2_ceil_ok lm divisor"
    and res: "choose_multiplier lm divisor N False = Inr (factor, factor_shr, div_bits)"
  shows "2 ^ (N + factor_shr) \<le> factor * divisor"
    and "factor * divisor \<le> 2 ^ (N + factor_shr) + 2 ^ factor_shr"
    and "factor_shr \<le> div_bits" and "div_bits = math_log2_ceil lm divisor"
    and "factor = (2 ^ (N + factor_shr) + 2 ^ factor_shr) div divisor"
proof -
  define l where "l = math_log2_ceil lm divisor"
  define X where "X = (2::int) ^ (N + l) + 2 ^ l"
  have d0: "0 < divisor" using d by simp
  have dl: "divisor \<le> 2 ^ l" using ok by (simp add: log2_ceil_ok_def l_def)
  have "X < divisor * (X div divisor + 1)" using d0 by (rule div_mult_gt_int)
  then have "X - divisor < (X div divisor) * divisor" by (simp add: algebra_simps)
  with dl have "2 ^ (N + l) \<le> (X div divisor) * divisor" by (simp add: X_def)
  from choose_multiplier_loop_invariant [OF d0 this [unfolded X_def]]
  obtain s' where s': "s' \<le> l"
    "choose_multiplier_loop (2 ^ (N + l) div divisor) ((2 ^ (N + l) + 2 ^ l) div divisor) l
      = (2 ^ (N + s') div divisor, (2 ^ (N + s') + 2 ^ s') div divisor, s')"
    "2 ^ (N + s') \<le> ((2 ^ (N + s') + 2 ^ s') div divisor) * divisor"
    by blast
  from res s'(2) have eq: "factor = (2 ^ (N + s') + 2 ^ s') div divisor" "factor_shr = s'"
    "div_bits = l"
    by (auto simp: choose_multiplier_unsigned [OF d] l_def [symmetric])
  show "div_bits = math_log2_ceil lm divisor" using eq(3) by (simp add: l_def)
  show "factor_shr \<le> div_bits" using eq s'(1) by simp
  show "2 ^ (N + factor_shr) \<le> factor * divisor" using eq s'(3) by simp
  show "factor = (2 ^ (N + factor_shr) + 2 ^ factor_shr) div divisor" using eq by simp
  have "divisor * ((2 ^ (N + s') + 2 ^ s') div divisor) \<le> 2 ^ (N + s') + 2 ^ s'"
    using d0 by (rule mult_div_le_int)
  then show "factor * divisor \<le> 2 ^ (N + factor_shr) + 2 ^ factor_shr"
    using eq by (simp add: mult.commute)
qed

lemma mulhi_quotient:
  assumes d: "1 \<le> divisor" and ok: "log2_ceil_ok lm divisor"
    and res: "choose_multiplier lm divisor 128 False = Inr (factor, factor_shr, div_bits)"
    and n: "0 \<le> n" "n \<le> u128_max"
  shows "drop_bit factor_shr (u128_mulhi n factor) = n div divisor"
proof -
  note snd = choose_multiplier_sound [OF d ok res]
  have n128: "n < 2 ^ 128" using n(2) by (simp add: u128_max_def)
  have "drop_bit factor_shr (u128_mulhi n factor) = (n * factor) div 2 ^ 128 div 2 ^ factor_shr"
    by (simp only: u128_mulhi_exact drop_bit_eq_div)
  also have "\<dots> = (n * factor) div (2 ^ 128 * 2 ^ factor_shr)"
    by (rule zdiv_zmult2_eq [symmetric]) simp
  also have "\<dots> = (n * factor) div 2 ^ (128 + factor_shr)" by (simp only: power_add)
  also have "\<dots> = n div divisor"
    using d n(1) n128 snd(1,2) by (intro multiply_shift_divides) simp_all
  finally show ?thesis .
qed

text \<open>
  \<open>udiv128\<close> divides exactly by every positive divisor for which the bit length is
  not underestimated, whether the multiplier fits in 128 bits or not.
\<close>

lemma udiv128_exact:
  assumes d: "1 \<le> divisor" and ok: "log2_ceil_ok lm divisor"
    and n: "0 \<le> n" "n \<le> u128_max"
  shows "udiv128 lm n divisor = Some (Inr (n div divisor, n - (n div divisor) * divisor))"
proof -
  obtain factor factor_shr where
    res: "choose_multiplier lm divisor 128 False = Inr (factor, factor_shr, math_log2_ceil lm divisor)"
    using choose_multiplier_total [OF d] by blast
  have nz: "divisor \<noteq> 0" using d by simp
  obtain shr where shr: "fast_shift divisor = Some shr" "2 ^ shr dvd divisor"
    using fast_shift_terminates [OF nz] by blast
  note sq = shifted_quotient [OF d shr(2)]
  have nz': "drop_bit shr divisor \<noteq> 0" using sq(2) by simp
  note mq = mulhi_quotient [OF d ok res n]
  show ?thesis
    unfolding udiv128_def using res shr(1) nz' sq(1) [of n] mq
    by (simp add: Let_def)
qed

lemma fast_shift_eqI:
  assumes "divisor \<noteq> 0" "2 ^ k dvd divisor" "\<not> 2 ^ (k + 1) dvd divisor"
  shows "fast_shift divisor = Some k"
proof -
  from fast_shift_terminates [OF assms(1)] obtain k' where
    k': "fast_shift divisor = Some k'" "2 ^ k' dvd divisor" "\<not> 2 ^ (k' + 1) dvd divisor"
    by blast
  have "\<not> k' + 1 \<le> k"
  proof
    assume "k' + 1 \<le> k"
    then have "(2::int) ^ (k' + 1) dvd 2 ^ k" by (rule le_imp_power_dvd)
    with assms(2) k'(3) show False using dvd_trans by blast
  qed
  moreover have "\<not> k + 1 \<le> k'"
  proof
    assume "k + 1 \<le> k'"
    then have "(2::int) ^ (k + 1) dvd 2 ^ k'" by (rule le_imp_power_dvd)
    with k'(2) assms(3) show False using dvd_trans by blast
  qed
  ultimately have "k' = k" by simp
  with k'(1) show ?thesis by simp
qed

lemma ceil_log2_eqI:
  fixes d :: int
  assumes "2 ^ k < d" "d \<le> 2 ^ Suc k"
  shows "nat \<lceil>log 2 (real_of_int d)\<rceil> = Suc k"
proof -
  have d0: "0 < real_of_int d"
    using assms(1) by (smt (verit) of_int_0_less_iff zero_less_power)
  have "(2::real) ^ k < real_of_int d"
    using assms(1) by (metis of_int_less_iff of_int_numeral of_int_power)
  then have lo: "real k < log 2 (real_of_int d)"
    using d0 by (simp add: less_log_iff powr_realpow)
  have "real_of_int d \<le> 2 ^ Suc k"
    using assms(2) by (metis of_int_le_iff of_int_numeral of_int_power)
  moreover have "(2::real) powr real (Suc k) = 2 ^ Suc k" by (rule powr_realpow) simp
  ultimately have "real_of_int d \<le> 2 powr real (Suc k)" by (simp only:)
  then have hi: "log 2 (real_of_int d) \<le> real (Suc k)"
    using d0 log_le_iff [of 2 "real_of_int d" "real (Suc k)"] by simp
  have "\<lceil>log 2 (real_of_int d)\<rceil> = int (Suc k)"
    using lo hi by (intro ceiling_unique) simp_all
  then show ?thesis by simp
qed

lemma ceil_log2_bit_length:
  assumes "1 \<le> d"
  shows "nat \<lceil>log 2 (real_of_int d)\<rceil> = bit_length (d - 1)"
proof (cases "d = 1")
  case True
  then show ?thesis by (simp add: bit_length_nonpos)
next
  case False
  with assms have pos: "0 < d - 1" by simp
  from bit_length_bounds [OF pos] obtain k where
    k: "bit_length (d - 1) = Suc k" "2 ^ k \<le> d - 1" "d - 1 < 2 ^ Suc k"
    using pos by (cases "bit_length (d - 1)") (auto simp: bit_length_pos)
  have "nat \<lceil>log 2 (real_of_int d)\<rceil> = Suc k"
    using k(2,3) by (intro ceil_log2_eqI) simp_all
  then show ?thesis by (simp add: k(1))
qed

lemma exact_log2_ceil_ok:
  assumes "1 \<le> d" "float_of_int d = d"
  shows "log2_ceil_ok exact_libm d"
  using bit_length_less [of "d - 1"]
  by (simp add: log2_ceil_ok_def math_log2_ceil_def exact_libm_simps assms(2))

lemma float_of_int_10_19: "float_of_int (10 ^ 19) = 10 ^ 19"
  by code_simp

lemma exact_log2_ceil_ok_10_19: "log2_ceil_ok exact_libm (10 ^ 19)"
proof (rule exact_log2_ceil_ok)
  show "(1::int) \<le> 10 ^ 19" by simp
  show "float_of_int (10 ^ 19) = 10 ^ 19" by (rule float_of_int_10_19)
qed

lemma choose_multiplier_spec_general:
  assumes d: "1 \<le> divisor"
    and l: "math_log2_ceil lm divisor = nat \<lceil>log 2 (real_of_int divisor)\<rceil>"
  shows "choose_multiplier lm divisor bits is_signed
    = Inr (spec_choose_multiplier divisor bits is_signed)"
proof -
  have fl: "\<lfloor>real_of_int a / real_of_int divisor\<rfloor> = a div divisor" for a
    by (rule floor_divide_of_int_eq)
  have 1: "\<lfloor>2 ^ k / real_of_int divisor\<rfloor> = 2 ^ k div divisor" for k
    using fl [of "2 ^ k"] by simp
  have 2: "\<lfloor>(2 ^ j + 2 ^ k) / real_of_int divisor\<rfloor> = (2 ^ j + 2 ^ k) div divisor" for j k
    using fl [of "2 ^ j + 2 ^ k"] by simp
  have 3: "int bits - (if is_signed then 1 else 0) = (if is_signed then int bits - 1 else int bits)"
    by simp
  show ?thesis
    using d
    by (simp add: choose_multiplier_def spec_choose_multiplier_def Let_def l [symmetric]
        1 2 spec_halve_eq split: prod.splits)
qed

subsection \<open>\<open>udiv128\<close>\<close>

lemma fast_shift_10_19: "fast_shift (10 ^ 19) = Some 19"
  by (rule fast_shift_eqI) simp_all

text \<open>
  C1.  Let \<open>divisor = radix^digits\<close> be a divisor the generator produces, \<open>digits\<close> being
  what \<open>find_power\<close> returns for a radix from 2 to 36, and let \<open>libm\<close>'s
  \<open>ceil(log2(divisor))\<close> be no underestimate.  Then for every dividend \<open>n\<close> from 0 to
  \<open>2^128 - 1\<close>, \<open>udiv128\<close> returns the quotient \<open>floor (n / divisor)\<close> and the
  remainder \<open>n - quotient * divisor\<close>, so that \<open>quotient * divisor + remainder = n\<close> and
  \<open>0 \<le> remainder < divisor\<close>.  For radix 10 the divisor is the default one, \<open>10^19\<close>.
\<close>

theorem udiv128_correct:
  assumes "2 \<le> radix" "radix \<le> 36" "log_floor_ok lm radix"
    and "find_power lm radix = Some (Inr digits)" and "divisor = radix ^ nat digits"
    and "log2_ceil_ok lm divisor" and "0 \<le> n" "n \<le> u128_max"
  shows "\<exists>quotient remainder.
    udiv128 lm n divisor = Some (Inr (quotient, remainder))
    \<and> quotient = n div divisor \<and> remainder = n - quotient * divisor
    \<and> quotient * divisor + remainder = n \<and> 0 \<le> remainder \<and> remainder < divisor
    \<and> (radix = 10 \<longrightarrow> divisor = default_divisor)"
proof -
  have d: "1 \<le> divisor" using assms(1,5) by simp
  have "digits = int (floor_log radix u64_max)"
    using find_power_result [OF assms(1-3)] assms(4) by simp
  then have dflt: "radix = 10 \<longrightarrow> divisor = default_divisor"
    using assms(5) by (simp add: floor_log_10 default_divisor_def)
  define q where "q = n div divisor"
  have res: "udiv128 lm n divisor = Some (Inr (q, n - q * divisor))"
    unfolding q_def using d assms(6-8) by (rule udiv128_exact)
  have "n - q * divisor = n mod divisor" by (simp add: q_def minus_div_mult_eq_mod)
  then have "0 \<le> n - q * divisor" "n - q * divisor < divisor" using d by simp_all
  with res dflt show ?thesis by (simp add: q_def)
qed

theorem udiv128_correct_witness:
  "log_floor_ok exact_libm 10 \<and> find_power exact_libm 10 = Some (Inr 19)
    \<and> log2_ceil_ok exact_libm (10 ^ 19)
    \<and> udiv128 exact_libm u128_max (10 ^ 19)
        = Some (Inr (34028236692093846346, 3374607431768211455))
    \<and> 34028236692093846346 * 10 ^ 19 + 3374607431768211455 = u128_max"
proof -
  have ok: "log_floor_ok exact_libm 10" by (rule exact_log_floor_ok) simp_all
  have fp: "find_power exact_libm 10 = Some (Inr 19)"
    using find_power_result [of 10 exact_libm, OF _ _ ok] by (simp add: floor_log_10)
  note ok2 = exact_log2_ceil_ok_10_19
  have "(0::int) \<le> u128_max" by (simp add: u128_max_def)
  from udiv128_correct [of 10 exact_libm 19 "10 ^ 19" u128_max, OF _ _ ok fp _ ok2 this]
  have "udiv128 exact_libm u128_max (10 ^ 19)
      = Some (Inr (u128_max div 10 ^ 19, u128_max - u128_max div 10 ^ 19 * 10 ^ 19))"
    by auto
  then have "udiv128 exact_libm u128_max (10 ^ 19)
      = Some (Inr (34028236692093846346, 3374607431768211455))"
    by (simp add: u128_max_def)
  with ok fp ok2 show ?thesis by (simp add: u128_max_def)
qed

text \<open>
  C4.  Let the divisor be positive with \<open>shr\<close> trailing zero bits, as \<open>fast_shift\<close>
  counts them, and let \<open>0 \<le> n < 2^(64 + shr)\<close>.  Then the shortcut quotient
  \<open>(n >> shr) // (divisor >> shr)\<close> is \<open>floor (n / divisor)\<close>, \<open>udiv128\<close> returns it, and
  it is the quotient of the multiply-high branch whenever the divisor fits in 64 bits
  (or the dividend in 128) and \<open>libm\<close>'s \<open>ceil(log2(divisor))\<close> is no underestimate.
\<close>

theorem fast_path_quotient:
  assumes "1 \<le> divisor" "fast_shift divisor = Some shr" "0 \<le> n" "n < 2 ^ (64 + shr)"
  shows "drop_bit shr n div drop_bit shr divisor = n div divisor
    \<and> udiv128 lm n divisor = Some (Inr (n div divisor, n - (n div divisor) * divisor))
    \<and> (\<forall>factor factor_shr div_bits.
          (divisor \<le> u64_max \<or> n \<le> u128_max) \<and> log2_ceil_ok lm divisor
          \<and> choose_multiplier lm divisor 128 False = Inr (factor, factor_shr, div_bits)
          \<longrightarrow> drop_bit factor_shr (u128_mulhi n factor)
              = drop_bit shr n div drop_bit shr divisor)"
proof -
  note dv = fast_shift_dvd(1) [OF assms(2)]
  note sq = shifted_quotient [OF assms(1) dv]
  have 1: "drop_bit shr n div drop_bit shr divisor = n div divisor" by (rule sq(1))
  obtain factor factor_shr where
    res: "choose_multiplier lm divisor 128 False = Inr (factor, factor_shr, math_log2_ceil lm divisor)"
    using choose_multiplier_total [OF assms(1)] by blast
  have nz: "drop_bit shr divisor \<noteq> 0" using sq(2) by simp
  have lt: "n < push_bit (64 + shr) 1" using assms(4) by (simp add: push_bit_eq_mult)
  have 2: "udiv128 lm n divisor = Some (Inr (n div divisor, n - (n div divisor) * divisor))"
    unfolding udiv128_def using res assms(2) nz lt 1 by (simp add: Let_def)
  have 3: "drop_bit fs (u128_mulhi n f) = drop_bit shr n div drop_bit shr divisor"
    if "divisor \<le> u64_max \<or> n \<le> u128_max" "log2_ceil_ok lm divisor"
      "choose_multiplier lm divisor 128 False = Inr (f, fs, db)" for f fs db
  proof -
    have "n \<le> u128_max" if "divisor \<le> u64_max"
    proof -
      have "(2::int) ^ shr \<le> divisor" using dv assms(1) by (intro zdvd_imp_le) simp_all
      with that have "(2::int) ^ shr < 2 ^ 64" by (simp add: u64_max_def)
      then have "shr < 64" by (rule power_less_imp_less_exp [rotated]) simp
      then have "(2::int) ^ (64 + shr) \<le> 2 ^ 128" by (intro power_increasing) simp_all
      with assms(4) show ?thesis by (simp add: u128_max_def)
    qed
    with that(1) have "n \<le> u128_max" by blast
    from mulhi_quotient [OF assms(1) that(2,3) assms(3) this] 1 show ?thesis by simp
  qed
  from 1 2 3 show ?thesis by blast
qed

theorem fast_path_quotient_witness:
  "fast_shift (10 ^ 19) = Some 19 \<and> (2 ^ 83 - 1 :: int) < 2 ^ (64 + 19)
    \<and> drop_bit 19 (2 ^ 83 - 1 :: int) div drop_bit 19 (10 ^ 19) = (2 ^ 83 - 1) div 10 ^ 19
    \<and> udiv128 exact_libm (2 ^ 83 - 1) (10 ^ 19) = Some (Inr (967140, 6556917033397649407))
    \<and> drop_bit 62 (u128_mulhi (2 ^ 83 - 1) 156927543384667019095894735580191660403) = 967140"
proof -
  have res: "choose_multiplier exact_libm (10 ^ 19) 128 False
      = Inr (156927543384667019095894735580191660403, 62, 64)"
    by code_simp
  note ok2 = exact_log2_ceil_ok_10_19
  have q: "(2 ^ 83 - 1) div 10 ^ 19 = (967140::int)" by simp
  note fp = fast_path_quotient [of "10 ^ 19" 19 "2 ^ 83 - 1" exact_libm, OF _ fast_shift_10_19]
  have "drop_bit 19 (2 ^ 83 - 1 :: int) div drop_bit 19 (10 ^ 19) = (2 ^ 83 - 1) div 10 ^ 19"
    and "udiv128 exact_libm (2 ^ 83 - 1) (10 ^ 19) = Some (Inr (967140, 6556917033397649407))"
    and "drop_bit 62 (u128_mulhi (2 ^ 83 - 1) 156927543384667019095894735580191660403)
      = drop_bit 19 (2 ^ 83 - 1 :: int) div drop_bit 19 (10 ^ 19)"
    using fp res ok2 by (simp_all add: u64_max_def)
  then show ?thesis using fast_shift_10_19 q by simp
qed

subsection \<open>\<open>choose_multiplier\<close> against the specification\<close>

text \<open>
  Where the floating-point \<open>ceil(log2(divisor))\<close> is the exact ceiling,
  \<open>choose_multiplier\<close> returns, without an error, what the algorithm of the
  specification computes.
\<close>

lemma choose_multiplier_refines_spec:
  assumes "1 \<le> divisor"
    and "math_log2_ceil lm divisor = nat \<lceil>log 2 (real_of_int divisor)\<rceil>"
  shows "choose_multiplier lm divisor 128 False
    = Inr (spec_choose_multiplier divisor 128 False)"
  using assms by (rule choose_multiplier_spec_general)

text \<open>It returns also when the multiplier does not fit in 128 bits, as for \<open>3^40\<close>.\<close>

lemma choose_multiplier_overflow:
  "choose_multiplier exact_libm (3 ^ 40) 128 False
      = Inr (516308147853378761080447150880966767953, 64, 64)
    \<and> (2 ^ 128 :: int) \<le> 516308147853378761080447150880966767953"
  by code_simp

text \<open>
  The two divisors \<open>2^53\<close> and \<open>2^53 + 1\<close> convert to the same double, so whatever the
  C library answers, \<open>choose_multiplier\<close> returns the same bit length for both; the
  exact ceilings of their logarithms are 53 and 54.
\<close>

lemma choose_multiplier_same_bit_length:
  "math_log2_ceil lm (2 ^ 53 + 1) = math_log2_ceil lm (2 ^ 53)"
proof -
  have "float_of_int (2 ^ 53) = 2 ^ 53" by code_simp
  then show ?thesis by (simp only: math_log2_ceil_def float_of_int_rounds)
qed

lemma spec_bit_lengths:
  "nat \<lceil>log 2 (real_of_int (2 ^ 53))\<rceil> = 53"
  "nat \<lceil>log 2 (real_of_int (2 ^ 53 + 1))\<rceil> = 54"
proof -
  show "nat \<lceil>log 2 (real_of_int (2 ^ 53))\<rceil> = 53"
    using ceil_log2_eqI [of 52 "2 ^ 53"] by simp
  show "nat \<lceil>log 2 (real_of_int (2 ^ 53 + 1))\<rceil> = 54"
    using ceil_log2_eqI [of 53 "2 ^ 53 + 1"] by simp
qed

lemma choose_multiplier_not_both:
  "\<not> (choose_multiplier lm (2 ^ 53) 128 False
        = Inr (spec_choose_multiplier (2 ^ 53) 128 False)
      \<and> choose_multiplier lm (2 ^ 53 + 1) 128 False
        = Inr (spec_choose_multiplier (2 ^ 53 + 1) 128 False))"
proof
  assume a: "choose_multiplier lm (2 ^ 53) 128 False
        = Inr (spec_choose_multiplier (2 ^ 53) 128 False)
      \<and> choose_multiplier lm (2 ^ 53 + 1) 128 False
        = Inr (spec_choose_multiplier (2 ^ 53 + 1) 128 False)"
  have 1: "snd (snd (spec_choose_multiplier d 128 False))
      = nat \<lceil>log 2 (real_of_int d)\<rceil>" for d
    by (simp add: spec_choose_multiplier_def Let_def split: prod.splits)
  have 2: "choose_multiplier lm d 128 False = Inr t \<Longrightarrow> snd (snd t) = math_log2_ceil lm d"
    for d t
    by (auto simp: choose_multiplier_def Let_def split: if_splits prod.splits)
  from a 1 2 have "math_log2_ceil lm (2 ^ 53) = 53" "math_log2_ceil lm (2 ^ 53 + 1) = 54"
    by (metis spec_bit_lengths(1), metis spec_bit_lengths(2))
  then show False using choose_multiplier_same_bit_length [of lm] by simp
qed

text \<open>
  C6.  The claim holds where the floating-point \<open>ceil(log2(divisor))\<close> is exact
  (\<open>choose_multiplier_refines_spec\<close>), and \<open>choose_multiplier\<close> never fails on a
  positive divisor.  It does not hold for every divisor up to \<open>2^64 - 1\<close>: at the
  divisor \<open>2^53 + 1\<close>, with a C library that is exact on the double it is given, the
  code returns the bit length 53, and the specification's algorithm has 54.  The
  multiplier and the shift are the same.
\<close>

theorem choose_multiplier_bit_length_rounded:
  "choose_multiplier exact_libm (2 ^ 53 + 1) 128 False
      = Inr (81129638414606672688589750403073, 31, 53)
    \<and> spec_choose_multiplier (2 ^ 53 + 1) 128 False
      = (81129638414606672688589750403073, 31, 54)"
proof -
  define lm where "lm = exact_libm \<lparr>log2_ceil := \<lambda>d. 54\<rparr>"
  have "math_log2_ceil lm (2 ^ 53 + 1) = nat \<lceil>log 2 (real_of_int (2 ^ 53 + 1))\<rceil>"
    using spec_bit_lengths(2) by (simp add: math_log2_ceil_def lm_def)
  then have "choose_multiplier lm (2 ^ 53 + 1) 128 False
      = Inr (spec_choose_multiplier (2 ^ 53 + 1) 128 False)"
    by (intro choose_multiplier_spec_general) simp_all
  moreover have "choose_multiplier lm (2 ^ 53 + 1) 128 False
      = Inr (81129638414606672688589750403073, 31, 54)"
    unfolding lm_def by code_simp
  moreover have "choose_multiplier exact_libm (2 ^ 53 + 1) 128 False
      = Inr (81129638414606672688589750403073, 31, 53)"
    by code_simp
  ultimately show ?thesis by simp
qed

subsection \<open>The generator\<close>

lemma exact_log2_trunc_ok:
  assumes "1 \<le> d" "d < 2 ^ 53"
  shows "log2_trunc_ok exact_libm d"
proof -
  have pos: "0 < d" using assms by simp
  have fd: "float_of_int d = d" using assms by (intro float_of_int_small) simp
  from bit_length_bounds [OF pos] obtain k where
    "bit_length d = Suc k" "2 ^ k \<le> d" "d < 2 ^ Suc k"
    using pos by (cases "bit_length d") (auto simp: bit_length_pos)
  then show ?thesis
    by (simp add: log2_trunc_ok_def math_log2_trunc_def exact_libm_simps fd)
qed

lemma is_pow2_iff:
  assumes "1 \<le> radix" "log2_trunc_ok lm radix"
  shows "is_pow2 lm radix = Inr (\<exists>k. radix = 2 ^ k)"
proof -
  define t where "t = math_log2_trunc lm radix"
  have t: "2 ^ t \<le> radix" "radix < 2 ^ Suc t"
    using assms(2) by (simp_all add: log2_trunc_ok_def t_def)
  have "(radix = 2 ^ t) = (\<exists>k. radix = 2 ^ k)"
  proof
    assume "\<exists>k. radix = 2 ^ k"
    then obtain k where k: "radix = 2 ^ k" ..
    have "t = k"
      using t k power_sandwich_unique [of 2 t radix k] by simp
    with k show "radix = 2 ^ t" by simp
  qed blast
  then show ?thesis using assms(1) by (simp add: is_pow2_def t_def)
qed

lemma pow2_radix_iff:
  fixes radix :: int
  assumes "2 \<le> radix" "radix \<le> 36"
  shows "(\<exists>k. radix = 2 ^ k) \<longleftrightarrow> radix \<in> {2, 4, 8, 16, 32}"
proof
  assume "\<exists>k. radix = 2 ^ k"
  then obtain k :: nat where k: "radix = 2 ^ k" ..
  have "(2::int) ^ k < 2 ^ 6" using assms(2) k by simp
  then have "k < 6" by (rule power_less_imp_less_exp [rotated]) simp
  then have "k \<in> {0, 1, 2, 3, 4, 5}" by auto
  with k assms(1) show "radix \<in> {2, 4, 8, 16, 32}" by auto
next
  assume "radix \<in> {2, 4, 8, 16, 32}"
  then have "radix = 2 ^ 1 \<or> radix = 2 ^ 2 \<or> radix = 2 ^ 3 \<or> radix = 2 ^ 4 \<or> radix = 2 ^ 5"
    by auto
  then show "\<exists>k. radix = 2 ^ k" by blast
qed

lemma radix_constants_pow2:
  assumes r: "2 \<le> radix" and p: "is_pow2 lm radix = Inr True"
  shows "\<exists>msk shr digits.
    radix_constants lm radix = Some (Inr (Pow2_Divrem radix msk shr digits))"
proof -
  have eq: "radix = 2 ^ math_log2_trunc lm radix"
    using p r by (simp add: is_pow2_def split: if_splits)
  have "math_log2_trunc lm radix \<noteq> 0"
  proof
    assume "math_log2_trunc lm radix = 0"
    with eq have "radix = 1" by simp
    with r show False by simp
  qed
  then show ?thesis using p r by (simp add: radix_constants_def print_pow2_def Let_def)
qed

lemma radix_constants_other:
  assumes r: "2 \<le> radix" "radix \<le> 36" and ok: "log_floor_ok lm radix"
    and p: "is_pow2 lm radix = Inr False"
  defines "digits \<equiv> floor_log radix u64_max"
  defines "divisor \<equiv> radix ^ digits"
  shows "\<exists>fast_shr factor factor_shr.
      fast_shift divisor = Some fast_shr
    \<and> choose_multiplier lm divisor 128 False = Inr (factor, factor_shr, math_log2_ceil lm divisor)
    \<and> radix_constants lm radix = Some (Inr
        (if 2 ^ 128 \<le> factor then print_slow radix divisor (int digits)
         else if fast_shr \<noteq> 0
         then print_fast radix divisor fast_shr factor factor_shr (int digits)
         else print_moderate radix divisor factor factor_shr (int digits)))"
proof -
  have fp: "find_power lm radix = Some (Inr (int digits))"
    unfolding digits_def using r ok by (rule find_power_result)
  have d1: "1 \<le> divisor" using r(1) by (simp add: divisor_def)
  then have nz: "divisor \<noteq> 0" by simp
  obtain fast_shr where fs: "fast_shift divisor = Some fast_shr"
    using fast_shift_terminates [OF nz] by blast
  obtain factor factor_shr where
    cm: "choose_multiplier lm divisor 128 False = Inr (factor, factor_shr, math_log2_ceil lm divisor)"
    using choose_multiplier_total [OF d1] by blast
  have "radix_constants lm radix = Some (Inr
        (if 2 ^ 128 \<le> factor then print_slow radix divisor (int digits)
         else if fast_shr \<noteq> 0
         then print_fast radix divisor fast_shr factor factor_shr (int digits)
         else print_moderate radix divisor factor factor_shr (int digits)))"
    using p fp fs cm by (simp add: radix_constants_def Let_def divisor_def [symmetric])
  with fs cm show ?thesis by blast
qed

lemma tier_of_print [simp]:
  "tier_of (print_slow radix divisor digits) = Slow"
  "tier_of (print_fast radix divisor fast_shr factor factor_shr digits) = Fast"
  "tier_of (print_moderate radix divisor factor factor_shr digits) = Moderate"
  "multiplier_of (print_fast radix divisor fast_shr factor factor_shr digits) = Some factor"
  "multiplier_of (print_moderate radix divisor factor factor_shr digits) = Some factor"
  by (simp_all add: print_slow_def print_fast_def print_moderate_def Let_def)

text \<open>
  C5.  For a radix from 2 to 36 the generator returns one record, without an error, and
  its tier is fixed by the source's chain of tests: \<open>PowerOfTwo\<close> exactly when the radix is
  a power of two (2, 4, 8, 16, 32); otherwise \<open>Slow\<close> exactly when the multiplier that
  \<open>choose_multiplier\<close> returns is at least \<open>2^128\<close>; otherwise \<open>Fast\<close> exactly when
  \<open>fast_shift\<close> is not zero; otherwise \<open>Moderate\<close>.  A \<open>Fast\<close> or \<open>Moderate\<close> record
  carries that multiplier, which is below \<open>2^128\<close>.
\<close>

theorem tier_assignment:
  assumes "2 \<le> radix" "radix \<le> 36" "log_floor_ok lm radix" "log2_trunc_ok lm radix"
  shows "\<exists>out. radix_constants lm radix = Some (Inr out)
    \<and> (tier_of out = PowerOfTwo \<longleftrightarrow> (\<exists>k. radix = 2 ^ k))
    \<and> (tier_of out = PowerOfTwo \<longleftrightarrow> radix \<in> {2, 4, 8, 16, 32})
    \<and> (tier_of out \<noteq> PowerOfTwo \<longrightarrow>
        (\<exists>digits fast_shr factor factor_shr div_bits.
            find_power lm radix = Some (Inr (int digits))
          \<and> fast_shift (radix ^ digits) = Some fast_shr
          \<and> choose_multiplier lm (radix ^ digits) 128 False
              = Inr (factor, factor_shr, div_bits)
          \<and> (tier_of out = Slow \<longleftrightarrow> 2 ^ 128 \<le> factor)
          \<and> (tier_of out = Fast \<longleftrightarrow> factor < 2 ^ 128 \<and> fast_shr \<noteq> 0)
          \<and> (tier_of out = Moderate \<longleftrightarrow> factor < 2 ^ 128 \<and> fast_shr = 0)
          \<and> (tier_of out = Fast \<or> tier_of out = Moderate
                \<longrightarrow> multiplier_of out = Some factor \<and> factor < 2 ^ 128)))"
proof -
  have r1: "1 \<le> radix" using assms(1) by simp
  note p2 = is_pow2_iff [OF r1 assms(4)]
  note set = pow2_radix_iff [OF assms(1,2)]
  show ?thesis
  proof (cases "\<exists>k. radix = 2 ^ k")
    case True
    then have "is_pow2 lm radix = Inr True" using p2 by simp
    from radix_constants_pow2 [OF assms(1) this] obtain msk shr digits where
      "radix_constants lm radix = Some (Inr (Pow2_Divrem radix msk shr digits))" by blast
    then show ?thesis using True set by (intro exI [of _ "Pow2_Divrem radix msk shr digits"]) simp
  next
    case False
    then have p: "is_pow2 lm radix = Inr False" using p2 by simp
    define digits where "digits = floor_log radix u64_max"
    from radix_constants_other [OF assms(1-3) p, folded digits_def]
    obtain fast_shr factor factor_shr where
      fs: "fast_shift (radix ^ digits) = Some fast_shr"
      and cm: "choose_multiplier lm (radix ^ digits) 128 False
        = Inr (factor, factor_shr, math_log2_ceil lm (radix ^ digits))"
      and rc: "radix_constants lm radix = Some (Inr
        (if 2 ^ 128 \<le> factor then print_slow radix (radix ^ digits) (int digits)
         else if fast_shr \<noteq> 0
         then print_fast radix (radix ^ digits) fast_shr factor factor_shr (int digits)
         else print_moderate radix (radix ^ digits) factor factor_shr (int digits)))"
      by blast
    define out where "out =
        (if 2 ^ 128 \<le> factor then print_slow radix (radix ^ digits) (int digits)
         else if fast_shr \<noteq> 0
         then print_fast radix (radix ^ digits) fast_shr factor factor_shr (int digits)
         else print_moderate radix (radix ^ digits) factor factor_shr (int digits))"
    have fp: "find_power lm radix = Some (Inr (int digits))"
      unfolding digits_def using assms(1-3) by (rule find_power_result)
    have t: "tier_of out \<noteq> PowerOfTwo"
      "tier_of out = Slow \<longleftrightarrow> 2 ^ 128 \<le> factor"
      "tier_of out = Fast \<longleftrightarrow> factor < 2 ^ 128 \<and> fast_shr \<noteq> 0"
      "tier_of out = Moderate \<longleftrightarrow> factor < 2 ^ 128 \<and> fast_shr = 0"
      "tier_of out = Fast \<or> tier_of out = Moderate
        \<longrightarrow> multiplier_of out = Some factor \<and> factor < 2 ^ 128"
      by (auto simp: out_def)
    have "\<exists>digits fast_shr factor factor_shr div_bits.
            find_power lm radix = Some (Inr (int digits))
          \<and> fast_shift (radix ^ digits) = Some fast_shr
          \<and> choose_multiplier lm (radix ^ digits) 128 False
              = Inr (factor, factor_shr, div_bits)
          \<and> (tier_of out = Slow \<longleftrightarrow> 2 ^ 128 \<le> factor)
          \<and> (tier_of out = Fast \<longleftrightarrow> factor < 2 ^ 128 \<and> fast_shr \<noteq> 0)
          \<and> (tier_of out = Moderate \<longleftrightarrow> factor < 2 ^ 128 \<and> fast_shr = 0)
          \<and> (tier_of out = Fast \<or> tier_of out = Moderate
                \<longrightarrow> multiplier_of out = Some factor \<and> factor < 2 ^ 128)"
      using fp fs cm t(2-5) by blast
    moreover have "radix_constants lm radix = Some (Inr out)" using rc by (simp add: out_def)
    ultimately show ?thesis using t(1) False set by (intro exI [of _ out]) simp
  qed
qed

theorem tier_assignment_witness:
  "log_floor_ok exact_libm 10 \<and> log2_trunc_ok exact_libm 10
    \<and> radix_constants exact_libm 10 = Some (Inr (Fast_Divrem 10 (10 ^ 19) (2 ^ 83) 19
          156927543384667019095894735580191660403 62 19))
    \<and> (156927543384667019095894735580191660403 :: int) < 2 ^ 128
    \<and> radix_constants exact_libm 3
        = Some (Inr (Slow_Divrem 3 (3 ^ 40) 0 40))
    \<and> choose_multiplier exact_libm (3 ^ 40) 128 False
        = Inr (516308147853378761080447150880966767953, 64, 64)
    \<and> (2 ^ 128 :: int) \<le> 516308147853378761080447150880966767953
    \<and> radix_constants exact_libm 16 = Some (Inr (Pow2_Divrem 16 (2 ^ 64 - 1) 64 16))"
proof -
  have ok: "log_floor_ok exact_libm 10" by (rule exact_log_floor_ok) simp_all
  have okt: "log2_trunc_ok exact_libm 10" by (rule exact_log2_trunc_ok) simp_all
  have cm: "choose_multiplier exact_libm (10 ^ 19) 128 False
      = Inr (156927543384667019095894735580191660403, 62, 64)" by code_simp
  have cm3: "choose_multiplier exact_libm (3 ^ 40) 128 False
      = Inr (516308147853378761080447150880966767953, 64, 64)" by code_simp
  have fp: "find_power exact_libm 10 = Some (Inr 19)"
    using find_power_result [of 10 exact_libm, OF _ _ ok] by (simp add: floor_log_10)
  have not2: "\<not> (10::int) \<in> {2, 4, 8, 16, 32}" by simp
  from tier_assignment [of 10 exact_libm, OF _ _ ok okt] obtain out where
    out: "radix_constants exact_libm 10 = Some (Inr out)" "tier_of out = Fast"
    using fp cm fast_shift_10_19 not2 by auto
  have "radix_constants exact_libm 10 = Some (Inr (Fast_Divrem 10 (10 ^ 19) (2 ^ 83) 19
          156927543384667019095894735580191660403 62 19))"
    using is_pow2_iff [OF _ okt] pow2_radix_iff [of 10] fp fast_shift_10_19 cm
    by (simp add: radix_constants_def print_fast_def push_bit_eq_mult)
  moreover have "radix_constants exact_libm 3 = Some (Inr (Slow_Divrem 3 (3 ^ 40) 0 40))"
    by code_simp
  moreover have "radix_constants exact_libm 16 = Some (Inr (Pow2_Divrem 16 (2 ^ 64 - 1) 64 16))"
    by code_simp
  ultimately show ?thesis using ok okt cm3 out by simp
qed

subsection \<open>The leading zero count of the \<open>Slow\<close> tier\<close>

declare bin_digits.simps [simp del]

lemma length_bin_digits:
  assumes "1 \<le> n"
  shows "length (bin_digits n) = bit_length n"
  using assms
proof (induction n rule: bin_digits.induct)
  case (1 n)
  show ?case
  proof (cases "n < 2")
    case True
    with "1.prems" have "n = 1" by simp
    then show ?thesis
      by (simp add: bin_digits.simps [of 1] bit_length_pos bit_length_nonpos)
  next
    case False
    then have "1 \<le> n div 2" by presburger
    with "1.IH" False have "length (bin_digits (n div 2)) = bit_length (n div 2)" by simp
    then show ?thesis
      using False by (simp add: bin_digits.simps [of n] bit_length_pos)
  qed
qed

lemma length_bin:
  assumes "1 \<le> d"
  shows "int (length (bin d)) = int (bit_length d) + 2"
  using assms length_bin_digits [OF assms] by (simp add: bin_def)

text \<open>
  C7, as stated, fails: for radix 3 the generator takes the \<open>Slow\<close> tier with the divisor
  \<open>3^40\<close>, which has 64 binary digits, and emits the count 0, not \<open>66 - 64 = 2\<close>.
\<close>

theorem slow_leading_zero_count_counterexample:
  "radix_constants exact_libm 3 = Some (Inr (Slow_Divrem 3 12157665459056928801 0 40))
    \<and> 66 - int (bit_length 12157665459056928801) = 2"
  by code_simp

text \<open>
  C7, amended.  For a radix from 2 to 36 that the generator routes to the \<open>Slow\<close> tier,
  the emitted count is \<open>66 - len(bin(divisor))\<close>, and \<open>bin\<close> puts the two characters
  \<open>0b\<close> before the binary digits: the count is \<open>64\<close> minus the number of binary digits
  of the divisor, its leading zero bits as a 64-bit word.
\<close>

theorem slow_leading_zero_count:
  assumes "2 \<le> radix" "radix \<le> 36"
    and "radix_constants lm radix = Some (Inr (Slow_Divrem r divisor ctlz digits))"
  shows "ctlz = 66 - int (length (bin divisor))
    \<and> ctlz = 64 - int (bit_length divisor)
    \<and> r = radix \<and> 0 \<le> digits \<and> divisor = radix ^ nat digits"
proof -
  from assms(3) have eq: "ctlz = 66 - int (length (bin divisor))" "r = radix" "0 \<le> digits"
    "divisor = radix ^ nat digits"
    by (auto simp: radix_constants_def print_pow2_def print_slow_def print_fast_def
        print_moderate_def Let_def
        split: sum.splits bool.splits option.splits if_splits prod.splits)
  have "1 \<le> divisor" using assms(1) eq(4) by simp
  from length_bin [OF this] eq show ?thesis by simp
qed

theorem slow_leading_zero_count_witness:
  "radix_constants exact_libm 3 = Some (Inr (Slow_Divrem 3 (3 ^ 40) 0 40))
    \<and> (0::int) = 66 - int (length (bin (3 ^ 40)))
    \<and> (0::int) = 64 - int (bit_length (3 ^ 40))"
proof -
  have rc: "radix_constants exact_libm 3 = Some (Inr (Slow_Divrem 3 (3 ^ 40) 0 40))"
    by code_simp
  from slow_leading_zero_count [of 3 exact_libm 3 "3 ^ 40" 0 40, OF _ _ rc] rc
  show ?thesis by simp
qed

subsection \<open>Termination\<close>

lemma udiv128_total:
  assumes "1 \<le> divisor"
  shows "\<exists>quotient remainder. udiv128 lm n divisor = Some (Inr (quotient, remainder))"
proof -
  obtain factor factor_shr where
    res: "choose_multiplier lm divisor 128 False = Inr (factor, factor_shr, math_log2_ceil lm divisor)"
    using choose_multiplier_total [OF assms] by blast
  have nz: "divisor \<noteq> 0" using assms by simp
  obtain shr where shr: "fast_shift divisor = Some shr" "2 ^ shr dvd divisor"
    using fast_shift_terminates [OF nz] by blast
  have "drop_bit shr divisor \<noteq> 0" using shifted_quotient(2) [OF assms shr(2)] by simp
  then show ?thesis using res shr(1) by (simp add: udiv128_def Let_def)
qed

lemma radix_constants_returns:
  assumes "2 \<le> radix" "radix \<le> 36" "log_floor_ok lm radix"
  shows "\<exists>out. radix_constants lm radix = Some (Inr out)"
proof (cases "is_pow2 lm radix = Inr False")
  case True
  from radix_constants_other [OF assms True] show ?thesis by blast
next
  case False
  then have "is_pow2 lm radix = Inr True" using assms(1) by (auto simp: is_pow2_def)
  from radix_constants_pow2 [OF assms(1) this] show ?thesis by blast
qed

lemma fast_shift_None_iff: "fast_shift d = None \<longleftrightarrow> d = 0"
proof
  assume "fast_shift d = None"
  then show "d = 0" using fast_shift_terminates [of d] by auto
next
  assume "d = 0"
  then show "fast_shift d = None" by (simp add: fast_shift_zero)
qed

text \<open>
  C9.  For a radix from 2 to 36 (and a \<open>libm\<close> whose logarithm is within one of the
  exact one) and a dividend from 0 to \<open>2^128 - 1\<close>, every operation returns: the loop
  of \<open>find_power\<close> ends at an exponent \<open>digits\<close> because \<open>radix^(digits + 1)\<close> exceeds
  \<open>2^64 - 1\<close>; the loop of \<open>fast_shift\<close> ends on \<open>radix^digits\<close>, which is not zero;
  \<open>udiv128\<close> and the generator's body return a value.  \<open>fast_shift\<close> does not return on 0, and
  on 0 only.  (The loop of \<open>choose_multiplier\<close> counts \<open>sh_post\<close> down; it is a total
  function, as are \<open>u128_mulhi\<close> and \<open>is_valid\<close>.)
\<close>

theorem operations_terminate:
  assumes "2 \<le> radix" "radix \<le> 36" "log_floor_ok lm radix" "0 \<le> n" "n \<le> u128_max"
  shows "\<exists>digits fast_shr quotient remainder out.
      find_power lm radix = Some (Inr (int digits))
    \<and> u64_max < radix ^ (digits + 1)
    \<and> radix ^ digits \<noteq> 0
    \<and> fast_shift (radix ^ digits) = Some fast_shr
    \<and> udiv128 lm n (radix ^ digits) = Some (Inr (quotient, remainder))
    \<and> radix_constants lm radix = Some (Inr out)
    \<and> fast_shift 0 = None
    \<and> (\<forall>d. fast_shift d = None \<longrightarrow> d = 0)"
proof -
  define digits where "digits = floor_log radix u64_max"
  have fp: "find_power lm radix = Some (Inr (int digits))"
    unfolding digits_def using assms(1-3) by (rule find_power_result)
  have big: "u64_max < radix ^ (digits + 1)"
    using radix_floor_log(2) [OF assms(1)] by (simp add: digits_def)
  have d1: "1 \<le> radix ^ digits" using assms(1) by simp
  then have nz: "radix ^ digits \<noteq> 0" by linarith
  obtain fast_shr where fs: "fast_shift (radix ^ digits) = Some fast_shr"
    using fast_shift_terminates [OF nz] by blast
  obtain quotient remainder where
    ud: "udiv128 lm n (radix ^ digits) = Some (Inr (quotient, remainder))"
    using udiv128_total [OF d1] by blast
  obtain out where rc: "radix_constants lm radix = Some (Inr out)"
    using radix_constants_returns [OF assms(1-3)] by blast
  have "\<forall>d. fast_shift d = None \<longrightarrow> d = 0" by (simp add: fast_shift_None_iff)
  with fp big nz fs ud rc fast_shift_zero show ?thesis by blast
qed

theorem operations_terminate_witness:
  "log_floor_ok exact_libm 10 \<and> find_power exact_libm 10 = Some (Inr 19)
    \<and> fast_shift (10 ^ 19) = Some 19
    \<and> udiv128 exact_libm u128_max (10 ^ 19)
        = Some (Inr (34028236692093846346, 3374607431768211455))
    \<and> fast_shift 0 = None"
proof -
  have ok: "log_floor_ok exact_libm 10" by (rule exact_log_floor_ok) simp_all
  have n: "(0::int) \<le> u128_max" by (simp add: u128_max_def)
  from operations_terminate [of 10 exact_libm u128_max, OF _ _ ok n]
  obtain digits where "find_power exact_libm 10 = Some (Inr (int digits))"
    and z: "fast_shift 0 = None" by auto
  moreover have "find_power exact_libm 10 = Some (Inr 19)"
    using find_power_result [of 10 exact_libm, OF _ _ ok] by (simp add: floor_log_10)
  moreover have "udiv128 exact_libm u128_max (10 ^ 19)
        = Some (Inr (34028236692093846346, 3374607431768211455))"
    by code_simp
  ultimately show ?thesis using ok fast_shift_10_19 by simp
qed

subsection \<open>Floating point against exact arithmetic\<close>

text \<open>
  The radices from 2 to 36 that are not powers of two are those of \<open>other_radices\<close>.
\<close>

lemma other_radices_mem:
  fixes radix :: int
  assumes "2 \<le> radix" "radix \<le> 36" "\<not> (\<exists>k. radix = 2 ^ k)"
  shows "radix \<in> set other_radices"
proof -
  have "radix \<notin> {2, 4, 8, 16, 32}" using assms pow2_radix_iff by blast
  then show ?thesis using assms(1,2) unfolding other_radices_def by simp presburger
qed

text \<open>
  With an error below 1, the floor of the floating-point \<open>log(u64_max, radix)\<close> is
  within one of the exact floor.
\<close>

lemma log_floor_within_ok:
  assumes r: "2 \<le> radix" "radix \<le> 36"
    and acc: "math_log_within lm 1 u64_max radix"
  shows "log_floor_ok lm radix"
proof -
  define L where "L = math_log_floor lm u64_max radix"
  define x where "x = log (real_of_int radix) (2 ^ 64)"
  have fr: "float_of_int radix = radix" using r by (intro float_of_int_small) simp
  from acc obtain y where y: "\<bar>y - x\<bar> < 1" "L = nat \<lfloor>y\<rfloor>"
    by (auto simp: math_log_within_def float_of_int_u64_max fr x_def L_def)
  have r1: "1 < real_of_int radix" using r(1) by simp
  have pw: "real_of_int radix powr real n = real_of_int (radix ^ n)" for n
    using r1 by (simp add: powr_realpow)
  have lo: "radix ^ (L - 1) \<le> u64_max"
  proof (cases "L = 0")
    case True
    then show ?thesis by (simp add: u64_max_def)
  next
    case False
    then have "int L = \<lfloor>y\<rfloor>" using y(2) by simp
    then have "real L = real_of_int \<lfloor>y\<rfloor>" by (metis of_int_of_nat_eq)
    moreover have "real (L - 1) = real L - 1" using False by (simp add: of_nat_diff)
    ultimately have "real (L - 1) = real_of_int \<lfloor>y\<rfloor> - 1" by simp
    also have "\<dots> \<le> y - 1" by simp
    also have "\<dots> < x" using y(1) by linarith
    finally have "real (L - 1) < x" .
    then have "real_of_int radix powr real (L - 1) < 2 ^ 64"
      unfolding x_def using r1 by (simp add: less_log_iff)
    then have "real_of_int (radix ^ (L - 1)) < real_of_int (2 ^ 64)" by (simp only: pw) simp
    then have "radix ^ (L - 1) < 2 ^ 64" by (simp only: of_int_less_iff)
    then show ?thesis by (simp add: u64_max_def)
  qed
  have "x < y + 1" using y(1) by linarith
  also have "y + 1 < real_of_int \<lfloor>y\<rfloor> + 2" by linarith
  also have "\<dots> \<le> real (L + 2)" using y(2) by simp
  finally have "x < real (L + 2)" .
  then have "2 ^ 64 < real_of_int radix powr real (L + 2)"
    unfolding x_def using r1 by (simp add: log_less_iff)
  then have "real_of_int (2 ^ 64) < real_of_int (radix ^ (L + 2))" by (simp only: pw) simp
  then have "2 ^ 64 < radix ^ (L + 2)" by (simp only: of_int_less_iff)
  then have hi: "u64_max < radix ^ (L + 2)" by (simp add: u64_max_def)
  from lo hi show ?thesis by (simp add: log_floor_ok_def L_def)
qed

text \<open>
  A double \<open>f\<close> between \<open>41/40 * 2^(l-1)\<close> and \<open>39/40 * 2^l\<close> has a logarithm between
  \<open>l - 1 + 1/32\<close> and \<open>l - 1/32\<close>, because \<open>2 < (41/40)^32\<close> and \<open>2 < (40/39)^32\<close>; a
  value within \<open>1/32\<close> of that logarithm has the ceiling \<open>l\<close>.
\<close>

lemma scaled_less:
  fixes c d P Q :: int
  assumes "c * P \<le> d * Q" "2 * d < c" "0 < P" "0 < d"
  shows "2 * P < Q"
proof -
  have "(2 * d) * P < c * P" using assms(2,3) by (rule mult_strict_right_mono)
  with assms(1) have "d * (2 * P) < d * Q" by (simp add: ac_simps)
  with assms(4) show ?thesis by (simp only: mult_less_cancel_left_pos)
qed

lemma margin_powers:
  fixes f :: int and l :: nat
  assumes lo: "41 * 2 ^ (l - 1) \<le> 40 * f" and hi: "40 * f \<le> 39 * 2 ^ l"
  shows "0 < f" and "2 * 2 ^ (32 * (l - 1)) < f ^ 32" and "2 * f ^ 32 < 2 ^ (32 * l)"
proof -
  define c41 :: int where "c41 = 41 ^ 32"
  define c40 :: int where "c40 = 40 ^ 32"
  define c39 :: int where "c39 = 39 ^ 32"
  have c: "2 * c40 < c41" "2 * c39 < c40" "0 < c40" "0 < c39"
    by (simp_all add: c41_def c40_def c39_def)
  have "(0::int) < 41 * 2 ^ (l - 1)" by simp
  with lo show f0: "0 < f" by linarith
  then have f32: "0 < f ^ 32" by simp
  have p: "(0::int) < 2 ^ (32 * (l - 1))" by simp
  have "(41 * 2 ^ (l - 1)) ^ 32 \<le> (40 * f) ^ 32" using lo by (intro power_mono) simp_all
  moreover have "(41 * (2::int) ^ (l - 1)) ^ 32 = c41 * 2 ^ (32 * (l - 1))"
    unfolding c41_def by (simp only: power_mult_distrib power_mult mult.commute [of 32])
  moreover have "(40 * f) ^ 32 = c40 * f ^ 32"
    unfolding c40_def by (simp only: power_mult_distrib)
  ultimately have "c41 * 2 ^ (32 * (l - 1)) \<le> c40 * f ^ 32" by (simp only:)
  from scaled_less [OF this c(1) p c(3)] show "2 * 2 ^ (32 * (l - 1)) < f ^ 32" .
  have "(40 * f) ^ 32 \<le> (39 * 2 ^ l) ^ 32" using hi f0 by (intro power_mono) simp_all
  moreover have "(39 * (2::int) ^ l) ^ 32 = c39 * 2 ^ (32 * l)"
    unfolding c39_def by (simp only: power_mult_distrib power_mult mult.commute [of 32])
  moreover have "(40 * f) ^ 32 = c40 * f ^ 32"
    unfolding c40_def by (simp only: power_mult_distrib)
  ultimately have "c40 * f ^ 32 \<le> c39 * 2 ^ (32 * l)" by (simp only:)
  from scaled_less [OF this c(2) f32 c(4)] show "2 * f ^ 32 < 2 ^ (32 * l)" .
qed

lemma ceil_from_margin:
  fixes f :: int and l :: nat
  assumes l: "0 < l" and lo: "41 * 2 ^ (l - 1) \<le> 40 * f" and hi: "40 * f \<le> 39 * 2 ^ l"
    and y: "\<bar>y - log 2 (real_of_int f)\<bar> < 1 / 32"
  shows "nat \<lceil>y\<rceil> = l"
proof -
  define x where "x = log 2 (real_of_int f)"
  define K where "K = 32 * (l - 1)"
  define M where "M = 32 * l - 1"
  note mp = margin_powers [OF lo hi, folded K_def]
  have rf0: "0 < real_of_int f" using mp(1) by simp
  have p0: "0 < real_of_int f ^ 32" using rf0 by simp
  have lx: "log 2 (real_of_int f ^ 32) = 32 * x" using rf0 by (simp add: log_nat_power x_def)
  have "real_of_int (2 * 2 ^ K) < real_of_int (f ^ 32)" using mp(2) by (simp only: of_int_less_iff)
  then have "(2::real) ^ Suc K < real_of_int f ^ 32" by simp
  then have "real (Suc K) < log 2 (real_of_int f ^ 32)"
    by (simp only: less_log_iff [of 2, OF _ p0] powr_realpow [of 2 "Suc K"])
  then have "real K + 1 < 32 * x" by (simp add: lx)
  moreover have "real K = 32 * (real l - 1)" using l by (simp add: K_def of_nat_diff)
  ultimately have lo': "real l - 1 + 1 / 32 < x" by simp
  have M: "32 * l = Suc M" using l by (simp add: M_def)
  have "real_of_int (2 * f ^ 32) < real_of_int (2 ^ Suc M)"
    using mp(3) by (simp only: of_int_less_iff M)
  then have "real_of_int f ^ 32 < 2 ^ M" by simp
  then have "real_of_int f ^ 32 < 2 powr real M" by (simp only: powr_realpow [of 2 M])
  then have "log 2 (real_of_int f ^ 32) < real M"
    by (simp only: log_less_iff [of 2, OF _ p0])
  then have "32 * x < real M" by (simp only: lx)
  moreover have "real M = 32 * real l - 1" using l by (simp add: M_def of_nat_diff)
  ultimately have hi': "x < real l - 1 / 32" by simp
  from y have "\<bar>y - x\<bar> < 1 / 32" by (simp only: x_def)
  then have "x - 1 / 32 < y" "y < x + 1 / 32" by linarith+
  with lo' hi' have "real l - 1 < y" "y < real l" by linarith+
  then have "\<lceil>y\<rceil> = int l" by (intro ceiling_unique) simp_all
  then show ?thesis by simp
qed

text \<open>The divisor of every radix that is not a power of two keeps that distance.\<close>

lemma generator_margins: "list_all generator_margin other_radices"
  by code_simp

lemma generator_margin_radix:
  fixes radix :: int
  assumes "2 \<le> radix" "radix \<le> 36" "\<not> (\<exists>k. radix = 2 ^ k)"
  shows "generator_margin radix"
  using generator_margins other_radices_mem [OF assms] by (simp only: list_all_iff)

text \<open>
  With an error below \<open>1/32\<close>, the ceiling of the floating-point \<open>log2\<close> of the divisor
  of a radix that is not a power of two is the exact ceiling.
\<close>

lemma log2_ceil_within_exact:
  fixes radix :: int
  assumes r: "2 \<le> radix" "radix \<le> 36" "\<not> (\<exists>k. radix = 2 ^ k)"
    and acc: "math_log2_within lm (1 / 32) (radix ^ floor_log radix u64_max)"
  shows "math_log2_ceil lm (radix ^ floor_log radix u64_max)
    = nat \<lceil>log 2 (real_of_int (radix ^ floor_log radix u64_max))\<rceil>"
proof -
  define d where "d = radix ^ floor_log radix u64_max"
  define l where "l = bit_length (d - 1)"
  have d1: "1 \<le> d" using r(1) by (simp add: d_def)
  from generator_margin_radix [OF r]
  have m: "0 < l" "41 * 2 ^ (l - 1) \<le> 40 * float_of_int d" "40 * float_of_int d \<le> 39 * 2 ^ l"
    by (simp_all add: generator_margin_def Let_def d_def l_def)
  from acc obtain y where y: "\<bar>y - log 2 (real_of_int (float_of_int d))\<bar> < 1 / 32"
    "math_log2_ceil lm d = nat \<lceil>y\<rceil>"
    unfolding math_log2_within_def d_def by blast
  have "nat \<lceil>y\<rceil> = l" using m y(1) by (rule ceil_from_margin)
  moreover have "nat \<lceil>log 2 (real_of_int d)\<rceil> = l"
    unfolding l_def using d1 by (rule ceil_log2_bit_length)
  ultimately show ?thesis using y(2) by (simp add: d_def)
qed

text \<open>The reference \<open>libm\<close> at radix 10 is within these bounds.\<close>

lemma log10_u64: "19 \<le> log 10 (2 ^ 64 :: real)" "log 10 (2 ^ 64 :: real) < 20"
proof -
  have "(10::real) powr 19 \<le> 2 ^ 64"
    using powr_realpow [of "10::real" 19] by simp
  then show "19 \<le> log 10 (2 ^ 64 :: real)" by (subst le_log_iff) simp_all
  have "(2::real) ^ 64 < 10 powr 20"
    using powr_realpow [of "10::real" 20] by simp
  then show "log 10 (2 ^ 64 :: real) < 20" by (subst log_less_iff) simp_all
qed

lemma exact_math_log_within_10: "math_log_within exact_libm 1 u64_max 10"
proof -
  have f10: "float_of_int 10 = 10" by (rule float_of_int_small) simp
  have fl: "floor_log 10 (2 ^ 64) = 19" by (rule floor_log_eqI) simp_all
  have "\<bar>39 / 2 - log 10 (2 ^ 64 :: real)\<bar> < 1" using log10_u64 by linarith
  moreover have "math_log_floor exact_libm u64_max 10 = nat \<lfloor>39 / 2 :: real\<rfloor>"
    using fl by (simp add: math_log_floor_def exact_libm_simps float_of_int_u64_max f10)
  ultimately show ?thesis
    unfolding math_log_within_def by (intro exI [of _ "39 / 2"]) (simp add: float_of_int_u64_max f10)
qed

lemma exact_math_log2_within_10_19: "math_log2_within exact_libm (1 / 32) (10 ^ 19)"
proof -
  have "math_log2_ceil exact_libm (10 ^ 19) = nat \<lceil>log 2 (real_of_int (10 ^ 19))\<rceil>"
    using ceil_log2_bit_length [of "10 ^ 19"] float_of_int_10_19
    by (simp add: math_log2_ceil_def exact_libm_simps)
  then show ?thesis
    unfolding math_log2_within_def
    using float_of_int_10_19 by (intro exI [of _ "log 2 (real_of_int (10 ^ 19))"]) simp
qed

text \<open>
  C10.  For a radix from 2 to 36, a C library whose \<open>log(u64_max, radix)\<close> has an error
  below 1 and whose \<open>log2\<close> of the divisor of the radix has an error below \<open>1/32\<close>, the
  floating-point operations decide what exact arithmetic decides.  The division in
  \<open>is_valid\<close> gives \<open>2^128 - 1 < x^3\<close> for every \<open>x\<close> from 1 to \<open>2^64 - 1\<close>.  The start of
  \<open>find_power\<close>, \<open>floor(log(u64_max, radix)) - 1\<close>, is not negative, is at most the
  largest exponent \<open>E\<close> with \<open>radix^E \<le> 2^64 - 1\<close>, and is valid, so that \<open>find_power\<close>
  returns \<open>E\<close>.  For a radix that is not a power of two, the only ones whose divisor
  reaches \<open>choose_multiplier\<close>, \<open>ceil(log2(divisor))\<close> is the exact ceiling of the
  logarithm of the divisor \<open>radix^E\<close>, and \<open>choose_multiplier\<close> returns what the
  algorithm on exact numbers returns.
\<close>

theorem float_operations_exact:
  assumes "2 \<le> radix" "radix \<le> 36"
    and "math_log_within lm 1 u64_max radix"
    and "math_log2_within lm (1 / 32) (radix ^ floor_log radix u64_max)"
    and "1 \<le> x" "x \<le> u64_max"
  shows "is_valid x = Inr (u128_max < x ^ 3)
    \<and> 1 \<le> math_log_floor lm u64_max radix
    \<and> math_log_floor lm u64_max radix - 1 \<le> floor_log radix u64_max
    \<and> radix ^ floor_log radix u64_max \<le> u64_max
    \<and> u64_max < radix ^ (floor_log radix u64_max + 1)
    \<and> is_valid (radix ^ (math_log_floor lm u64_max radix - 1)) = Inr True
    \<and> find_power lm radix = Some (Inr (int (floor_log radix u64_max)))
    \<and> (\<not> (\<exists>k. radix = 2 ^ k) \<longrightarrow>
        math_log2_ceil lm (radix ^ floor_log radix u64_max)
          = nat \<lceil>log 2 (real_of_int (radix ^ floor_log radix u64_max))\<rceil>
        \<and> choose_multiplier lm (radix ^ floor_log radix u64_max) 128 False
          = Inr (spec_choose_multiplier (radix ^ floor_log radix u64_max) 128 False))"
proof -
  define L where "L = math_log_floor lm u64_max radix"
  define E where "E = floor_log radix u64_max"
  note r = assms(1,2)
  have ok: "log_floor_ok lm radix" using r assms(3) by (rule log_floor_within_ok)
  note rng = log_floor_ok_range [OF r ok, folded L_def E_def]
  note fl = radix_floor_log [OF r(1), folded E_def]
  have 1: "is_valid x = Inr (u128_max < x ^ 3)" using assms(5,6) by (rule is_valid_exact)
  have 2: "is_valid (radix ^ (L - 1)) = Inr True"
    using r rng(2,3) by (intro is_valid_power(1)) (simp_all add: E_def)
  have 3: "find_power lm radix = Some (Inr (int E))"
    unfolding E_def using r ok by (rule find_power_result)
  have 4: "math_log2_ceil lm (radix ^ E) = nat \<lceil>log 2 (real_of_int (radix ^ E))\<rceil>
      \<and> choose_multiplier lm (radix ^ E) 128 False
        = Inr (spec_choose_multiplier (radix ^ E) 128 False)"
    if p: "\<not> (\<exists>k. radix = 2 ^ k)"
  proof -
    have c: "math_log2_ceil lm (radix ^ E) = nat \<lceil>log 2 (real_of_int (radix ^ E))\<rceil>"
      unfolding E_def using r p assms(4) by (rule log2_ceil_within_exact)
    have "1 \<le> radix ^ E" using r(1) by simp
    from choose_multiplier_spec_general [OF this c] c show ?thesis by simp
  qed
  from 1 rng(1,2) fl 2 3 4 show ?thesis by (simp add: L_def E_def)
qed

theorem float_operations_exact_witness:
  "math_log_within exact_libm 1 u64_max 10
    \<and> math_log2_within exact_libm (1 / 32) (10 ^ 19)
    \<and> is_valid (10 ^ 19) = Inr True
    \<and> math_log_floor exact_libm u64_max 10 = 19
    \<and> is_valid (10 ^ 18) = Inr True
    \<and> find_power exact_libm 10 = Some (Inr 19)
    \<and> math_log2_ceil exact_libm (10 ^ 19) = 64
    \<and> nat \<lceil>log 2 (real_of_int (10 ^ 19))\<rceil> = 64
    \<and> choose_multiplier exact_libm (10 ^ 19) 128 False
        = Inr (156927543384667019095894735580191660403, 62, 64)
    \<and> spec_choose_multiplier (10 ^ 19) 128 False
        = (156927543384667019095894735580191660403, 62, 64)"
proof -
  have res: "choose_multiplier exact_libm (10 ^ 19) 128 False
      = Inr (156927543384667019095894735580191660403, 62, 64)"
    by code_simp
  have f10: "float_of_int 10 = 10" by (rule float_of_int_small) simp
  have fl: "floor_log 10 (2 ^ 64) = 19" by (rule floor_log_eqI) simp_all
  have L: "math_log_floor exact_libm u64_max 10 = 19"
    using fl by (simp add: math_log_floor_def exact_libm_simps float_of_int_u64_max f10)
  have np: "\<not> (\<exists>k. (10::int) = 2 ^ k)" using pow2_radix_iff [of 10] by simp
  have c: "nat \<lceil>log 2 (real_of_int (10 ^ 19))\<rceil> = 64"
    using ceil_log2_eqI [of 63 "10 ^ 19"] by simp
  have a: "math_log_within exact_libm 1 u64_max 10" by (rule exact_math_log_within_10)
  have b: "math_log2_within exact_libm (1 / 32) (10 ^ 19)"
    by (rule exact_math_log2_within_10_19)
  have x: "(1::int) \<le> 10 ^ 19" "(10::int) ^ 19 \<le> u64_max" by (simp_all add: u64_max_def)
  have u: "u128_max < (10 ^ 19) ^ 3" by (simp add: u128_max_def)
  from float_operations_exact [of 10 exact_libm "10 ^ 19", unfolded floor_log_10, OF _ _ a b x]
  have "is_valid (10 ^ 19) = Inr (u128_max < (10 ^ 19) ^ 3)"
    "is_valid (10 ^ (math_log_floor exact_libm u64_max 10 - 1)) = Inr True"
    "find_power exact_libm 10 = Some (Inr 19)"
    "math_log2_ceil exact_libm (10 ^ 19) = nat \<lceil>log 2 (real_of_int (10 ^ 19))\<rceil>"
    "choose_multiplier exact_libm (10 ^ 19) 128 False
        = Inr (spec_choose_multiplier (10 ^ 19) 128 False)"
    using np by simp_all
  with a b L c u res show ?thesis by simp
qed

subsection \<open>The whole table\<close>

lemma emit_all_total:
  assumes "\<And>radix. radix \<in> set rs \<Longrightarrow> \<exists>out. radix_constants lm radix = Some (Inr out)"
  shows "\<exists>outs. emit_all lm rs = Some (Inr outs) \<and> length outs = length rs
    \<and> (\<forall>i<length rs. radix_constants lm (rs ! i) = Some (Inr (outs ! i)))"
  using assms
proof (induction rs)
  case Nil
  then show ?case by simp
next
  case (Cons r rs)
  from Cons.prems [of r] obtain out where out: "radix_constants lm r = Some (Inr out)" by auto
  from Cons.IH Cons.prems obtain outs where
    outs: "emit_all lm rs = Some (Inr outs)" "length outs = length rs"
    "\<forall>i<length rs. radix_constants lm (rs ! i) = Some (Inr (outs ! i))" by auto
  have "\<forall>i<length (r # rs). radix_constants lm ((r # rs) ! i) = Some (Inr ((out # outs) ! i))"
    using out outs(3) by (auto simp: nth_Cons split: nat.splits)
  with out outs(1,2) show ?case by (intro exI [of _ "out # outs"]) simp
qed

text \<open>\<open>divisor_constants\<close> returns the 35 records of the loop body, in order.\<close>

lemma divisor_constants_total:
  assumes "\<And>radix. 2 \<le> radix \<Longrightarrow> radix \<le> 36 \<Longrightarrow> log_floor_ok lm radix"
  shows "\<exists>outs. divisor_constants lm = Some (Inr outs) \<and> length outs = 35
    \<and> (\<forall>i<35. radix_constants lm (2 + int i) = Some (Inr (outs ! i)))"
proof -
  have "\<exists>out. radix_constants lm radix = Some (Inr out)" if "radix \<in> set [2..36]" for radix
  proof -
    from that have "radix \<in> {2..36}" by (simp only: set_upto)
    then have r: "2 \<le> radix" "radix \<le> 36" by simp_all
    from radix_constants_returns [OF r assms [OF r]] show ?thesis .
  qed
  from emit_all_total [of "[2..36]" lm, OF this] obtain outs where
    outs: "emit_all lm [2..36] = Some (Inr outs)" "length outs = length [2..36]"
    "\<forall>i<length [2..36]. radix_constants lm ([2..36] ! i) = Some (Inr (outs ! i))" by blast
  have len: "length [2..36] = 35" by simp
  have nth: "[2..36] ! i = 2 + int i" if "i < 35" for i
    using that by (intro nth_upto) simp
  have "\<forall>i<35. radix_constants lm (2 + int i) = Some (Inr (outs ! i))"
  proof (intro allI impI)
    fix i :: nat assume i: "i < 35"
    then have "radix_constants lm ([2..36] ! i) = Some (Inr (outs ! i))"
      using outs(3) by (simp only: len)
    then show "radix_constants lm (2 + int i) = Some (Inr (outs ! i))"
      by (simp only: nth [OF i])
  qed
  moreover have "length outs = 35" using outs(2) by (simp only: len)
  moreover have "divisor_constants lm = Some (Inr outs)"
    using outs(1) by (simp only: divisor_constants_def)
  ultimately show ?thesis by blast
qed

text \<open>The constants the generator emits with the reference \<open>libm\<close>.\<close>

lemma divisor_constants_exact:
  "divisor_constants exact_libm = Some (Inr
    [Pow2_Divrem 2 18446744073709551615 64 64,
     Slow_Divrem 3 12157665459056928801 0 40,
     Pow2_Divrem 4 18446744073709551615 64 32,
     Moderate_Divrem 5 7450580596923828125 105312291668557186697918027683670432319 61 27,
     Fast_Divrem 6 4738381338321616896 309485009821345068724781056 24
       165591931273573223021296166324748699891 61 24,
     Moderate_Divrem 7 3909821048582988049 200683792729517998822275406364627986707 61 22,
     Pow2_Divrem 8 9223372036854775807 63 21,
     Slow_Divrem 9 12157665459056928801 0 20,
     Fast_Divrem 10 10000000000000000000 9671406556917033397649408 19
       156927543384667019095894735580191660403 62 19,
     Slow_Divrem 11 5559917313492231481 1 18,
     Slow_Divrem 12 2218611106740436992 3 17,
     Moderate_Divrem 13 8650415919381337933 181410402513790565292660635782582404765 62 17,
     Fast_Divrem 14 2177953337809371136 1208925819614629174706176 16
       1407280417134467544760816054546363235 53 16,
     Moderate_Divrem 15 6568408355712890625 1866504587258795246613513364166764993 55 16,
     Pow2_Divrem 16 18446744073709551615 64 16,
     Moderate_Divrem 17 2862423051509815793 68529153692836345537218837732158950089 59 15,
     Fast_Divrem 18 6746640616477458432 604462909807314587353088 15
       232601011830094623283686247347795155951 62 15,
     Moderate_Divrem 19 15181127029874798299 25842538415601616733690423925257626679 60 15,
     Fast_Divrem 20 1638400000000000000 4951760157141521099596496896 28
       239452428260295134118491722992235809941 60 14,
     Moderate_Divrem 21 3243919932521508681 120939747781233590383781714337497669585 60 14,
     Slow_Divrem 22 6221821273427820544 1 14,
     Moderate_Divrem 23 11592836324538749809 270731922700393644432243678371210997949 63 14,
     Fast_Divrem 24 876488338465357824 10141204801825835211973625643008 39
       55950381945266105153185943557606235389 57 13,
     Moderate_Divrem 25 1490116119384765625 131640364585696483372397534604588040399 59 13,
     Fast_Divrem 26 2481152873203736576 151115727451828646838272 13
       316239166637962178669658228673482425689 61 13,
     Slow_Divrem 27 4052555153018976267 2 13,
     Fast_Divrem 28 6502111422497947648 1237940039285380274899124224 26
       241348591538561183926479953354701294803 62 13,
     Moderate_Divrem 29 10260628712958602189 152941450056053853841698190746050519297 62 13,
     Slow_Divrem 30 15943230000000000000 0 13,
     Moderate_Divrem 31 787662783788549761 124519929891402176328714857711808162537 58 12,
     Pow2_Divrem 32 1152921504606846975 60 12,
     Slow_Divrem 33 1667889514952984961 3 12,
     Fast_Divrem 34 2386420683693101056 75557863725914323419136 12
       328792707121977505492535302517672775183 61 12,
     Moderate_Divrem 35 3379220508056640625 116097442450503652080238494022501325491 60 12,
     Fast_Divrem 36 4738381338321616896 309485009821345068724781056 24
       165591931273573223021296166324748699891 61 12])"
  by code_simp

end
